theory Spec2Isabelle
  imports Main "HOL-Library.Word" "HOL-Library.Multiset"
begin

section \<open>Data model\<close>

text \<open>
  A Go string is a sequence of bytes, and so is a HOL \<open>string\<close>: indexing and slicing in
  the source count bytes, never code points.

  A \<open>HandlerFunc\<close> is a function value or \<open>nil\<close>; a \<open>HandlersChain\<close> is a slice of
  them, and the \<open>nil\<close> slice is distinguished from an empty one because the tree
  tests \<open>n.handlers != nil\<close>.  The functions themselves are opaque to the router, so
  they are a type parameter.
\<close>

type_synonym 'f HandlerFunc = "'f option"

type_synonym 'f HandlersChain = "'f HandlerFunc list option"

text \<open>Every way the router can panic: the three assertions of \<open>Engine.addRoute\<close>,
  the duplicate test of \<open>node.addRoute\<close>, and the run-time check of an index or a
  slice bound.\<close>

datatype error =
    PathMustBeginWithSlash
  | MethodCanNotBeEmpty
  | AtLeastOneHandler
  | HandlersAlreadyRegistered string
  | IndexOutOfRange

datatype 'f node =
  Node (path: string) (indices: string) (priority: "32 word")
       (children: "'f node list") (handlers: "'f HandlersChain") (fullPath: string)

text \<open>\<open>len\<close> of a chain: the \<open>nil\<close> slice has length 0.\<close>

definition len_chain :: "'f HandlersChain \<Rightarrow> nat" where
  "len_chain c = (case c of None \<Rightarrow> 0 | Some fs \<Rightarrow> length fs)"

section \<open>\<open>HandlersChain.Last\<close>\<close>

text \<open>\<open>c[i]\<close> on a chain, with the bounds check of the run time.\<close>

definition index_chain :: "'f HandlersChain \<Rightarrow> nat \<Rightarrow> error + 'f HandlerFunc" where
  "index_chain c i =
     (case c of
        None \<Rightarrow> Inl IndexOutOfRange
      | Some fs \<Rightarrow> if i < length fs then Inr (fs ! i) else Inl IndexOutOfRange)"

definition Last :: "'f HandlersChain \<Rightarrow> error + 'f HandlerFunc" where
  "Last c = (let l = len_chain c in if l > 0 then index_chain c (l - 1) else Inr None)"

section \<open>The routing tree\<close>

subsection \<open>\<open>longestCommonPrefix\<close>\<close>

function lcp_loop :: "string \<Rightarrow> string \<Rightarrow> nat \<Rightarrow> nat" where
  "lcp_loop a b i =
     (if i < min (length a) (length b) \<and> a ! i = b ! i then lcp_loop a b (i + 1) else i)"
  by pat_completeness auto
termination
  by (relation "measure (\<lambda>(a, b, i). min (length a) (length b) - i)") auto

declare lcp_loop.simps [simp del]

definition longestCommonPrefix :: "string \<Rightarrow> string \<Rightarrow> nat" where
  "longestCommonPrefix a b = lcp_loop a b 0"

subsection \<open>\<open>incrementChildPrio\<close>\<close>

text \<open>The priority counter is a \<open>uint32\<close>: \<open>priority++\<close> wraps at \<open>2 ^ 32\<close>.\<close>

definition bump :: "'f node \<Rightarrow> 'f node" where
  "bump c = Node (path c) (indices c) (priority c + 1) (children c) (handlers c) (fullPath c)"

text \<open>The loop that moves the child at \<open>newPos\<close> to the front, one swap at a time,
  while the sibling before it has a strictly lower priority.\<close>

fun move_front :: "'f node list \<Rightarrow> 32 word \<Rightarrow> nat \<Rightarrow> 'f node list \<times> nat" where
  "move_front cs prio 0 = (cs, 0)"
| "move_front cs prio (Suc k) =
     (if priority (cs ! k) < prio
      then move_front (cs[k := cs ! Suc k, Suc k := cs ! k]) prio k
      else (cs, Suc k))"

text \<open>The new index string \<open>indices[:newPos] + indices[pos:pos+1] + indices[newPos:pos]
  + indices[pos+1:]\<close>; the slice expressions panic unless \<open>pos + 1 \<le> len(indices)\<close>.\<close>

definition move_index :: "string \<Rightarrow> nat \<Rightarrow> nat \<Rightarrow> error + string" where
  "move_index ind newPos pos =
     (if pos + 1 \<le> length ind \<and> newPos \<le> pos
      then Inr (take newPos ind @ take 1 (drop pos ind)
                @ take (pos - newPos) (drop newPos ind) @ drop (pos + 1) ind)
      else Inl IndexOutOfRange)"

definition incrementChildPrio :: "'f node \<Rightarrow> nat \<Rightarrow> error + ('f node \<times> nat)" where
  "incrementChildPrio n pos =
     (let cs = children n in
      if pos < length cs then
        (let cs1 = cs[pos := bump (cs ! pos)];
             prio = priority (cs1 ! pos);
             (cs2, newPos) = move_front cs1 prio pos
         in if newPos \<noteq> pos then
              (case move_index (indices n) newPos pos of
                 Inl e \<Rightarrow> Inl e
               | Inr ind \<Rightarrow>
                   Inr (Node (path n) ind (priority n) cs2 (handlers n) (fullPath n), newPos))
            else Inr (Node (path n) (indices n) (priority n) cs2 (handlers n) (fullPath n),
                      newPos))
      else Inl IndexOutOfRange)"

subsection \<open>\<open>addRoute\<close>\<close>

definition insertChild :: "'f node \<Rightarrow> string \<Rightarrow> string \<Rightarrow> 'f HandlersChain \<Rightarrow> 'f node" where
  "insertChild n pth fp hs = Node pth (indices n) (priority n) (children n) hs fp"

text \<open>The split of an edge at byte \<open>i\<close> of the node's segment: the old segment's rest,
  with the children and the handlers, moves into a new only child.\<close>

definition split_edge :: "'f node \<Rightarrow> string \<Rightarrow> nat \<Rightarrow> 'f node" where
  "split_edge n pth i =
     (let child = Node (drop i (path n)) (indices n) (priority n - 1) (children n)
                       (handlers n) (fullPath n)
      in Node (take i pth) [path n ! i] (priority n) [child] None (fullPath n))"

text \<open>The scan \<open>for i, max := 0, len(n.indices); i < max; i++\<close> for the first position
  that holds the byte \<open>c\<close>.\<close>

fun index_byte :: "char \<Rightarrow> string \<Rightarrow> nat option" where
  "index_byte c [] = None"
| "index_byte c (x # xs) = (if c = x then Some 0 else map_option Suc (index_byte c xs))"

text \<open>One pass through the body of the loop labelled \<open>walk\<close>, standing at the node
  \<open>n\<close> with the rest \<open>pth\<close> of the path: either the call is over (with a panic or
  with the node as it is left), or the loop continues at the child at position \<open>k\<close> of
  the node, which may have been split and reordered by then.\<close>

datatype 'f step =
    Done "error + 'f node"
  | Descend "'f node" nat string

definition set_child :: "'f node \<Rightarrow> nat \<Rightarrow> 'f node \<Rightarrow> 'f node" where
  "set_child n k c =
     Node (path n) (indices n) (priority n) ((children n)[k := c]) (handlers n) (fullPath n)"

definition walk_step :: "'f node \<Rightarrow> string \<Rightarrow> string \<Rightarrow> 'f HandlersChain \<Rightarrow> 'f step" where
  "walk_step n pth fp hs =
     (let i = longestCommonPrefix pth (path n);
          n1 = (if i < length (path n) then split_edge n pth i else n)
      in if i < length pth then
           (let pth1 = drop i pth; c = pth1 ! 0 in
            if c = CHR ''/'' \<and> length (children n1) = 1 then
              Descend (set_child n1 0 (bump (children n1 ! 0))) 0 pth1
            else
              (case index_byte c (indices n1) of
                 Some k \<Rightarrow>
                   (case incrementChildPrio n1 k of
                      Inl e \<Rightarrow> Done (Inl e)
                    | Inr (n2, k2) \<Rightarrow>
                        if k2 < length (children n2) then Descend n2 k2 pth1
                        else Done (Inl IndexOutOfRange))
               | None \<Rightarrow>
                   (let child = Node [] [] 0 [] None fp;
                        n2 = Node (path n1) (indices n1 @ [c]) (priority n1)
                                  (children n1 @ [child]) (handlers n1) (fullPath n1);
                        pos = length (indices n2) - 1;
                        last = length (children n2) - 1
                    in case incrementChildPrio n2 pos of
                         Inl e \<Rightarrow> Done (Inl e)
                       | Inr (n3, k3) \<Rightarrow>
                           (let k = (if pos = last then k3 else last)
                            in Done (Inr (set_child n3 k
                                 (insertChild (children n3 ! k) pth1 fp hs)))))))
         else if handlers n1 \<noteq> None then Done (Inl (HandlersAlreadyRegistered fp))
         else Done (Inr (Node (path n1) (indices n1) (priority n1) (children n1) hs fp)))"

text \<open>The loop itself.  The source holds a pointer to the child it goes down into and
  mutates it in place: what the rest of the loop makes of the child is stored back at
  its position.  The loop may run forever, so it is a partial function: \<open>None\<close> is a
  walk that never returns, \<open>Some (Inl e)\<close> a panic, \<open>Some (Inr n')\<close> the node as the
  walk leaves it.\<close>

definition put_child :: "'f node \<Rightarrow> nat \<Rightarrow> error + 'f node \<Rightarrow> error + 'f node" where
  "put_child n k r = (case r of Inl e \<Rightarrow> Inl e | Inr c \<Rightarrow> Inr (set_child n k c))"

partial_function (option) walk ::
  "'f node \<Rightarrow> string \<Rightarrow> string \<Rightarrow> 'f HandlersChain \<Rightarrow> (error + 'f node) option" where
  "walk n pth fp hs =
     (case walk_step n pth fp hs of
        Done r \<Rightarrow> Some r
      | Descend n1 k pth1 \<Rightarrow>
          Option.bind (walk (children n1 ! k) pth1 fp hs) (\<lambda>r. Some (put_child n1 k r)))"

declare walk.simps [code]

definition addRoute :: "'f node \<Rightarrow> string \<Rightarrow> 'f HandlersChain \<Rightarrow> (error + 'f node) option" where
  "addRoute n pth hs =
     (let fp = pth;
          n1 = Node (path n) (indices n) (priority n + 1) (children n) (handlers n) (fullPath n)
      in if length (path n1) = 0 \<and> length (children n1) = 0
         then Some (Inr (insertChild n1 pth fp hs))
         else walk n1 pth fp hs)"

subsection \<open>\<open>getValue\<close>\<close>

text \<open>The lookup walks down from the root; every step goes into a child, so the loop
  ends.  A \<open>nil\<close> chain (\<open>Inr None\<close>) is the answer "no route".  Where the segment
  is not a proper prefix of the path, the source falls through to the test
  \<open>path == prefix\<close>.\<close>

function getValue :: "'f node \<Rightarrow> string \<Rightarrow> error + 'f HandlersChain" where
  "getValue n pth =
     (if length pth > length (path n) \<and> take (length (path n)) pth = path n then
        (case index_byte (drop (length (path n)) pth ! 0) (indices n) of
           Some i \<Rightarrow>
             if i < length (children n)
             then getValue (children n ! i) (drop (length (path n)) pth)
             else Inl IndexOutOfRange
         | None \<Rightarrow> Inr None)
      else if pth = path n then Inr (handlers n)
      else Inr None)"
  by pat_completeness auto
termination
proof (relation "measure (\<lambda>(n, pth). size n)", goal_cases)
  case 1
  show ?case by simp
next
  case (2 n pth i)
  then have "children n ! i \<in> set (children n)"
    by simp
  then have "size (children n ! i) < Suc (size_list size (children n))"
    by (simp add: less_Suc_eq_le size_list_estimation')
  then show ?case
    by (cases n) simp
qed

declare getValue.simps [simp del]

text \<open>\<open>getValue\<close> has a pointer receiver.  Here it is once more with the state passed
  explicitly, as for \<open>walk\<close>: the result comes with the node as the lookup leaves it,
  the child it went down into stored back at its position.\<close>

function getValue_st :: "'f node \<Rightarrow> string \<Rightarrow> (error + 'f HandlersChain) \<times> 'f node" where
  "getValue_st n pth =
     (if length pth > length (path n) \<and> take (length (path n)) pth = path n then
        (case index_byte (drop (length (path n)) pth ! 0) (indices n) of
           Some i \<Rightarrow>
             if i < length (children n)
             then (case getValue_st (children n ! i) (drop (length (path n)) pth) of
                     (hs, c) \<Rightarrow> (hs, set_child n i c))
             else (Inl IndexOutOfRange, n)
         | None \<Rightarrow> (Inr None, n))
      else if pth = path n then (Inr (handlers n), n)
      else (Inr None, n))"
  by pat_completeness auto
termination
proof (relation "measure (\<lambda>(n, pth). size n)", goal_cases)
  case 1
  show ?case by simp
next
  case (2 n pth i)
  then have "children n ! i \<in> set (children n)"
    by simp
  then have "size (children n ! i) < Suc (size_list size (children n))"
    by (simp add: less_Suc_eq_le size_list_estimation')
  then show ?case
    by (cases n) simp
qed

declare getValue_st.simps [simp del]

section \<open>The method table and the engine\<close>

record 'f methodTree = "method" :: string  root :: "'f node"

type_synonym 'f methodTrees = "'f methodTree list"

text \<open>\<open>methodTrees.get\<close>: the root of the first tree of that method, or \<open>nil\<close>.\<close>

fun get :: "'f methodTrees \<Rightarrow> string \<Rightarrow> 'f node option" where
  "get [] m = None"
| "get (tree # trees) m = (if method tree = m then Some (root tree) else get trees m)"

text \<open>\<open>get\<close> hands out a pointer to the root, and \<open>addRoute\<close> mutates the node
  behind it: the tree that \<open>get\<close> found is the one that changes.\<close>

fun set_root :: "'f methodTrees \<Rightarrow> string \<Rightarrow> 'f node \<Rightarrow> 'f methodTrees" where
  "set_root [] m r = []"
| "set_root (tree # trees) m r =
     (if method tree = m then tree\<lparr>root := r\<rparr> # trees else tree # set_root trees m r)"

text \<open>\<open>Engine.addRoute\<close> on the engine's \<open>trees\<close> field.  \<open>path[0]\<close> on the empty
  string is a run-time panic; \<open>debugPrintRoute\<close> only prints.\<close>

definition Engine_addRoute ::
  "'f methodTrees \<Rightarrow> string \<Rightarrow> string \<Rightarrow> 'f HandlersChain \<Rightarrow> (error + 'f methodTrees) option"
where
  "Engine_addRoute trees m pth hs =
     (if \<not> 0 < length pth then Some (Inl IndexOutOfRange)
      else if pth ! 0 \<noteq> CHR ''/'' then Some (Inl PathMustBeginWithSlash)
      else if m = [] then Some (Inl MethodCanNotBeEmpty)
      else if \<not> len_chain hs > 0 then Some (Inl AtLeastOneHandler)
      else
        (case get trees m of
           None \<Rightarrow>
             (let r = Node [] [] 0 [] None ''/'';
                  trees1 = trees @ [\<lparr>method = m, root = r\<rparr>]
              in Option.bind (addRoute r pth hs)
                   (\<lambda>res. Some (case res of Inl e \<Rightarrow> Inl e
                                 | Inr r1 \<Rightarrow> Inr (set_root trees1 m r1))))
         | Some r \<Rightarrow>
             Option.bind (addRoute r pth hs)
               (\<lambda>res. Some (case res of Inl e \<Rightarrow> Inl e
                             | Inr r1 \<Rightarrow> Inr (set_root trees m r1)))))"

text \<open>The route lookup of \<open>Engine.handleHTTPRequest\<close>: the chain the request is
  dispatched to, or \<open>nil\<close> when the request is answered with 404.  Only the first
  tree of the request's method is asked.\<close>

fun handleHTTPRequest :: "'f methodTrees \<Rightarrow> string \<Rightarrow> string \<Rightarrow> error + 'f HandlersChain" where
  "handleHTTPRequest [] httpMethod rPath = Inr None"
| "handleHTTPRequest (t # ts) httpMethod rPath =
     (if method t \<noteq> httpMethod then handleHTTPRequest ts httpMethod rPath
      else getValue (root t) rPath)"

section \<open>Sequences of registrations\<close>

text \<open>Registrations one after the other; a panic or a call that never returns ends
  the sequence.\<close>

fun addRoutes ::
  "'f node \<Rightarrow> (string \<times> 'f HandlersChain) list \<Rightarrow> (error + 'f node) option" where
  "addRoutes n [] = Some (Inr n)"
| "addRoutes n ((pth, hs) # rs) =
     (case addRoute n pth hs of
        None \<Rightarrow> None
      | Some (Inl e) \<Rightarrow> Some (Inl e)
      | Some (Inr n1) \<Rightarrow> addRoutes n1 rs)"

fun registerAll ::
  "'f methodTrees \<Rightarrow> (string \<times> string \<times> 'f HandlersChain) list
     \<Rightarrow> (error + 'f methodTrees) option" where
  "registerAll trees [] = Some (Inr trees)"
| "registerAll trees ((m, pth, hs) # rs) =
     (case Engine_addRoute trees m pth hs of
        None \<Rightarrow> None
      | Some (Inl e) \<Rightarrow> Some (Inl e)
      | Some (Inr trees1) \<Rightarrow> registerAll trees1 rs)"

text \<open>\<open>tree := &node{}\<close>, the tree before the first registration.\<close>

definition empty_tree :: "'f node" where
  "empty_tree = Node [] [] 0 [] None []"

text \<open>\<open>fakeHandler(val)\<close> of the test file: a chain of one function, known by \<open>val\<close>.\<close>

definition fakeHandler :: "string \<Rightarrow> string HandlersChain" where
  "fakeHandler val = Some [Some val]"

text \<open>The routes of \<open>Test_node_addRoute\<close>, in the order of the test file and in the
  order the specification lists them (the two \<open>/doc/go\<close> routes are swapped).  The
  last two are \<open>/\<alpha>\<close> and \<open>/\<beta>\<close> in UTF-8: the bytes CE B1 and CE B2.\<close>

definition test_routes :: "string list" where
  "test_routes =
     [''/hi'', ''/contact'', ''/co'', ''/c'', ''/a'', ''/ab'', ''/doc/'', ''/doc/go_faq.html'',
      ''/doc/go1.html'', [CHR ''/'', CHR 0xCE, CHR 0xB1], [CHR ''/'', CHR 0xCE, CHR 0xB2]]"

definition spec_routes :: "string list" where
  "spec_routes =
     [''/hi'', ''/contact'', ''/co'', ''/c'', ''/a'', ''/ab'', ''/doc/'', ''/doc/go1.html'',
      ''/doc/go_faq.html'', [CHR ''/'', CHR 0xCE, CHR 0xB1], [CHR ''/'', CHR 0xCE, CHR 0xB2]]"

text \<open>\<open>checkRequests\<close> on the requests of the test: which are found, and with which
  handler.  The last line is not in the test: the two multi-byte routes share the byte
  CE, which becomes a node of its own without handlers.\<close>

definition checkRequests :: "string node \<Rightarrow> bool" where
  "checkRequests tree \<longleftrightarrow>
       getValue tree ''/a'' = Inr (fakeHandler ''/a'')
     \<and> getValue tree ''/'' = Inr None
     \<and> getValue tree ''/hi'' = Inr (fakeHandler ''/hi'')
     \<and> getValue tree ''/contact'' = Inr (fakeHandler ''/contact'')
     \<and> getValue tree ''/co'' = Inr (fakeHandler ''/co'')
     \<and> getValue tree ''/con'' = Inr None
     \<and> getValue tree ''/cona'' = Inr None
     \<and> getValue tree ''/no'' = Inr None
     \<and> getValue tree ''/ab'' = Inr (fakeHandler ''/ab'')
     \<and> getValue tree [CHR ''/'', CHR 0xCE, CHR 0xB1]
         = Inr (fakeHandler [CHR ''/'', CHR 0xCE, CHR 0xB1])
     \<and> getValue tree [CHR ''/'', CHR 0xCE, CHR 0xB2]
         = Inr (fakeHandler [CHR ''/'', CHR 0xCE, CHR 0xB2])
     \<and> getValue tree [CHR ''/'', CHR 0xCE] = Inr None"

section \<open>Vocabulary of the properties\<close>

text \<open>The list \<open>xs\<close> after the element at \<open>pos\<close> has been replaced by \<open>x\<close> and moved
  forward to position \<open>j\<close>; the other elements keep their order.\<close>

definition move_to :: "'a list \<Rightarrow> nat \<Rightarrow> nat \<Rightarrow> 'a \<Rightarrow> 'a list" where
  "move_to xs j pos x = take j xs @ [x] @ take (pos - j) (drop j xs) @ drop (Suc pos) xs"


text \<open>The tree after \<open>/a\<close> and \<open>/ab\<close> have been registered: a root with a single
  child whose segment does not begin with a slash.\<close>

definition looping_tree :: "string node" where
  "looping_tree =
     Node ''/a'' ''b'' 2 [Node ''b'' [] 1 [] (fakeHandler ''/ab'') ''/ab''] (fakeHandler ''/a'') ''/a''"

text \<open>The invariant of the data model: the index string has one byte per child, the
  first byte of that child's segment; these bytes differ from each other; no child has an
  empty segment; and so on below.  Nothing is asked of the node's own segment.\<close>

fun wf_node :: "'f node \<Rightarrow> bool" where
  "wf_node (Node p ind pr cs h fp) \<longleftrightarrow>
     length ind = length cs \<and> distinct ind
     \<and> (\<forall>c \<in> set cs. path c \<noteq> [] \<and> wf_node c)
     \<and> map (\<lambda>c. path c ! 0) cs = ind"

text \<open>\<open>n'\<close> is the node \<open>n\<close> after \<open>pth\<close> has been registered below it with the chain
  \<open>hs\<close>: it keeps the invariant and its first byte, and the lookup answers \<open>hs\<close> for
  \<open>pth\<close> and what it answered before for every other path.\<close>

definition registers :: "'f node \<Rightarrow> string \<Rightarrow> 'f HandlersChain \<Rightarrow> 'f node \<Rightarrow> bool" where
  "registers n pth hs n' \<longleftrightarrow>
     wf_node n' \<and> path n' \<noteq> [] \<and> path n' ! 0 = path n ! 0
     \<and> (\<forall>q. getValue n' q = (if q = pth then Inr hs else getValue n q))"

text \<open>The invariant of a root: the tree is either still empty or its segment begins
  with a slash.\<close>

definition wf_root :: "'f node \<Rightarrow> bool" where
  "wf_root n \<longleftrightarrow>
     wf_node n
     \<and> (if path n = [] then children n = [] \<and> handlers n = None else path n ! 0 = CHR ''/'')"

text \<open>A registration is a method, a path and a chain.  \<open>registered rs m p\<close> is the chain
  that the registrations \<open>rs\<close> hold for the path \<open>p\<close> under the method \<open>m\<close>, or
  \<open>nil\<close>.\<close>

definition route_key :: "string \<times> string \<times> 'f HandlersChain \<Rightarrow> string \<times> string" where
  "route_key r = (fst r, fst (snd r))"

definition registered ::
  "(string \<times> string \<times> 'f HandlersChain) list \<Rightarrow> string \<Rightarrow> string \<Rightarrow> 'f HandlersChain" where
  "registered rs m p =
     (case map_of (map (\<lambda>r. (route_key r, snd (snd r))) rs) (m, p) of
        None \<Rightarrow> None
      | Some h \<Rightarrow> h)"

text \<open>The engine after the registrations \<open>rs\<close>: every root keeps its invariant, the
  dispatch answers exactly what was registered, no chain is \<open>nil\<close> and no path was
  registered twice under one method.\<close>

definition engine_inv ::
  "'f methodTrees \<Rightarrow> (string \<times> string \<times> 'f HandlersChain) list \<Rightarrow> bool" where
  "engine_inv trees rs \<longleftrightarrow>
     (\<forall>m t. get trees m = Some t \<longrightarrow> wf_root t)
     \<and> (\<forall>m q. handleHTTPRequest trees m q = Inr (registered rs m q))
     \<and> (\<forall>r \<in> set rs. snd (snd r) \<noteq> None)
     \<and> distinct (map route_key rs)"

text \<open>What \<open>Engine.addRoute\<close> asserts of a registration: the method is not empty, the
  path begins with a slash, the chain has a handler.\<close>

definition valid_registration :: "string \<times> string \<times> 'f HandlersChain \<Rightarrow> bool" where
  "valid_registration r \<longleftrightarrow>
     fst r \<noteq> [] \<and> 0 < length (fst (snd r)) \<and> fst (snd r) ! 0 = CHR ''/''
     \<and> 0 < len_chain (snd (snd r))"

text \<open>Three registrations under one method, with distinct paths: the first two lead to
  \<open>looping_tree\<close>.\<close>

definition looping_prefix :: "(string \<times> string \<times> string HandlersChain) list" where
  "looping_prefix = [(''GET'', ''/a'', fakeHandler ''/a''), (''GET'', ''/ab'', fakeHandler ''/ab'')]"

definition looping_routes :: "(string \<times> string \<times> string HandlersChain) list" where
  "looping_routes = looping_prefix @ [(''GET'', ''/a/'', fakeHandler ''/a/'')]"

definition looping_engine :: "string methodTrees" where
  "looping_engine = [\<lparr>method = ''GET'', root = looping_tree\<rparr>]"

text \<open>Three registrations under two methods, and the engine they lead to.\<close>

definition example_routes :: "(string \<times> string \<times> string HandlersChain) list" where
  "example_routes =
     [(''GET'', ''/a'', fakeHandler ''GET /a''), (''GET'', ''/ab'', fakeHandler ''GET /ab''),
      (''POST'', ''/b'', fakeHandler ''POST /b'')]"

definition example_engine :: "string methodTrees" where
  "example_engine =
     [\<lparr>method = ''GET'',
       root = Node ''/a'' ''b'' 2 [Node ''b'' [] 1 [] (fakeHandler ''GET /ab'') ''/ab'']
                (fakeHandler ''GET /a'') ''/a''\<rparr>,
      \<lparr>method = ''POST'', root = Node ''/b'' [] 1 [] (fakeHandler ''POST /b'') ''/b''\<rparr>]"

section \<open>\<open>HandlersChain.Last\<close> is total\<close>

text \<open>
  Claim C10.  \<open>Last\<close> never fails: on the \<open>nil\<close> chain and on the empty chain it
  returns \<open>nil\<close>, and on a chain with at least one element it returns the final
  element (which is whatever was stored there, possibly a \<open>nil\<close> function).
\<close>

theorem Last_total:
  "Last None = (Inr None :: error + 'f HandlerFunc)
   \<and> Last (Some []) = (Inr None :: error + 'f HandlerFunc)
   \<and> Last (Some (fs @ [f])) = Inr f"
  by (simp add: Last_def len_chain_def index_chain_def)

section \<open>The routes of the test\<close>

text \<open>
  Claim C5.  Registering the eleven routes of the test, each with its own one-function
  chain, returns a tree (in the order of the specification and in the order of the test
  file) in which \<open>getValue\<close> finds \<open>/a\<close>, \<open>/hi\<close>, \<open>/contact\<close>, \<open>/co\<close>, \<open>/ab\<close>,
  \<open>/\<alpha>\<close> and \<open>/\<beta>\<close> with the chain registered for that very path and finds nothing for
  \<open>/\<close>, \<open>/con\<close>, \<open>/cona\<close> and \<open>/no\<close>.  The paths are byte strings: the tree splits
  \<open>/\<alpha>\<close> and \<open>/\<beta>\<close> after their common first byte.
\<close>

theorem test_vector_lookup:
  "(case addRoutes empty_tree (map (\<lambda>route. (route, fakeHandler route)) spec_routes) of
      Some (Inr tree) \<Rightarrow> checkRequests tree
    | _ \<Rightarrow> False)
   \<and> (case addRoutes empty_tree (map (\<lambda>route. (route, fakeHandler route)) test_routes) of
      Some (Inr tree) \<Rightarrow> checkRequests tree
    | _ \<Rightarrow> False)"
  by code_simp

section \<open>Priority reordering\<close>

lemma swap_shape:
  assumes "Suc k < length cs" "j \<le> k"
  shows "take j (cs[k := cs ! Suc k, Suc k := cs ! k]) = take j cs"
    and "take (k - j) (drop j (cs[k := cs ! Suc k, Suc k := cs ! k])) = take (k - j) (drop j cs)"
    and "drop (Suc k) (cs[k := cs ! Suc k, Suc k := cs ! k]) = cs ! k # drop (Suc (Suc k)) cs"
    and "cs[k := cs ! Suc k, Suc k := cs ! k] ! k = cs ! Suc k"
  using assms
  by (auto simp: list_eq_iff_nth_eq nth_list_update drop_update_swap Cons_nth_drop_Suc nth_Cons split: nat.splits)

lemma take_drop_snoc:
  assumes "k < length cs" "j \<le> k"
  shows "take (Suc k - j) (drop j cs) = take (k - j) (drop j cs) @ [cs ! k]"
proof -
  have "Suc k - j = Suc (k - j)" using assms by simp
  moreover have "k - j < length (drop j cs)" using assms by simp
  ultimately show ?thesis using assms
    by (simp add: take_Suc_conv_app_nth)
qed

lemma move_front_spec:
  "k < length cs \<Longrightarrow> move_front cs prio k = (cs', j) \<Longrightarrow>
     j \<le> k
   \<and> cs' = take j cs @ [cs ! k] @ take (k - j) (drop j cs) @ drop (Suc k) cs
   \<and> (\<forall>i. j \<le> i \<and> i < k \<longrightarrow> priority (cs ! i) < prio)
   \<and> (0 < j \<longrightarrow> \<not> priority (cs ! (j - 1)) < prio)"
proof (induction k arbitrary: cs cs' j)
  case 0
  then show ?case by (cases cs) auto
next
  case (Suc k)
  show ?case
  proof (cases "priority (cs ! k) < prio")
    case False
    with Suc.prems have "cs' = cs" "j = Suc k" by auto
    with False Suc.prems show ?thesis
      by (auto simp add: id_take_nth_drop[symmetric])
  next
    case True
    let ?cs1 = "cs[k := cs ! Suc k, Suc k := cs ! k]"
    from True Suc.prems have mf: "move_front ?cs1 prio k = (cs', j)" by simp
    have len: "k < length ?cs1" using Suc.prems by simp
    from Suc.IH[OF len mf]
    have j: "j \<le> k"
      and shape: "cs' = take j ?cs1 @ [?cs1 ! k] @ take (k - j) (drop j ?cs1) @ drop (Suc k) ?cs1"
      and low: "\<forall>i. j \<le> i \<and> i < k \<longrightarrow> priority (?cs1 ! i) < prio"
      and stop: "0 < j \<longrightarrow> \<not> priority (?cs1 ! (j - 1)) < prio"
      by auto
    have sk: "Suc k < length cs" using Suc.prems by simp
    have k': "k < length cs" using sk by simp
    have "cs' = take j cs @ [cs ! Suc k] @ take (Suc k - j) (drop j cs) @ drop (Suc (Suc k)) cs"
      using shape swap_shape[OF sk j] take_drop_snoc[OF k' j] by simp
    moreover have "\<forall>i. j \<le> i \<and> i < Suc k \<longrightarrow> priority (cs ! i) < prio"
    proof (intro allI impI)
      fix i assume i: "j \<le> i \<and> i < Suc k"
      show "priority (cs ! i) < prio"
      proof (cases "i = k")
        case True with \<open>priority (cs ! k) < prio\<close> show ?thesis by simp
      next
        case False
        with i have "i < k" by simp
        with i low have "priority (?cs1 ! i) < prio" by blast
        with \<open>i < k\<close> show ?thesis by simp
      qed
    qed
    moreover have "0 < j \<longrightarrow> \<not> priority (cs ! (j - 1)) < prio"
      using stop j by (cases j) auto
    ultimately show ?thesis using j by simp
  qed
qed

lemma move_to_same: "pos < length xs \<Longrightarrow> move_to xs pos pos x = xs[pos := x]"
  by (simp add: move_to_def upd_conv_take_nth_drop)

lemma length_move_to: "j \<le> pos \<Longrightarrow> pos < length xs \<Longrightarrow> length (move_to xs j pos x) = length xs"
  by (auto simp: move_to_def)

lemma nth_move_to: "j \<le> pos \<Longrightarrow> pos < length xs \<Longrightarrow> move_to xs j pos x ! j = x"
  by (simp add: move_to_def nth_append)

lemma take_split: "j \<le> pos \<Longrightarrow> take pos xs = take j xs @ take (pos - j) (drop j xs)"
  using take_add[of j "pos - j" xs] by simp

lemma mset_move_to:
  "j \<le> pos \<Longrightarrow> pos < length xs \<Longrightarrow> mset (move_to xs j pos x) = mset (xs[pos := x])"
  by (simp add: move_to_def upd_conv_take_nth_drop take_split[of j pos xs])

lemma zip_move_to:
  assumes "j \<le> pos" "pos < length xs" "length xs = length ys"
  shows "zip (move_to xs j pos x) (move_to ys j pos y) = move_to (zip xs ys) j pos (x, y)"
  using assms by (simp add: move_to_def take_zip drop_zip)

lemma move_index_move_to:
  "j \<le> pos \<Longrightarrow> pos < length ind \<Longrightarrow> move_index ind j pos = Inr (move_to ind j pos (ind ! pos))"
  by (simp add: move_index_def move_to_def take_Suc_conv_app_nth Cons_nth_drop_Suc[symmetric])

lemma incrementChildPrio_shape:
  assumes pos: "pos < length (children n)" and len: "length (indices n) = length (children n)"
  shows "\<exists>j. j \<le> pos
     \<and> incrementChildPrio n pos =
         Inr (Node (path n) (move_to (indices n) j pos (indices n ! pos)) (priority n)
                   (move_to (children n) j pos (bump (children n ! pos))) (handlers n)
                   (fullPath n), j)
     \<and> (\<forall>i. j \<le> i \<and> i < pos \<longrightarrow> priority (children n ! i) < priority (children n ! pos) + 1)
     \<and> (0 < j \<longrightarrow> \<not> priority (children n ! (j - 1)) < priority (children n ! pos) + 1)"
proof -
  let ?cs = "children n"
  let ?c = "bump (?cs ! pos)"
  let ?cs1 = "?cs[pos := ?c]"
  let ?prio = "priority (?cs ! pos) + 1"
  obtain cs2 j where mf: "move_front ?cs1 ?prio pos = (cs2, j)"
    by (cases "move_front ?cs1 ?prio pos") auto
  have pos1: "pos < length ?cs1" using pos by simp
  from move_front_spec[OF pos1 mf]
  have j: "j \<le> pos"
    and shape: "cs2 = take j ?cs1 @ [?cs1 ! pos] @ take (pos - j) (drop j ?cs1) @ drop (Suc pos) ?cs1"
    and low: "\<forall>i. j \<le> i \<and> i < pos \<longrightarrow> priority (?cs1 ! i) < ?prio"
    and stop: "0 < j \<longrightarrow> \<not> priority (?cs1 ! (j - 1)) < ?prio"
    by auto
  have cs2: "cs2 = move_to ?cs j pos ?c"
    using shape j pos by (simp add: move_to_def drop_update_swap)
  have prio: "priority (?cs1 ! pos) = ?prio"
    using pos by (simp add: bump_def)
  have ind: "move_index (indices n) j pos = Inr (move_to (indices n) j pos (indices n ! pos))"
    using move_index_move_to[of j pos "indices n"] j pos len by simp
  have same: "j = pos \<Longrightarrow> move_to (indices n) j pos (indices n ! pos) = indices n"
    using pos len by (simp add: move_to_same)
  have res: "incrementChildPrio n pos =
         Inr (Node (path n) (move_to (indices n) j pos (indices n ! pos)) (priority n)
                   (move_to ?cs j pos ?c) (handlers n) (fullPath n), j)"
    using pos mf prio ind same cs2
    by (simp add: incrementChildPrio_def Let_def)
  have low': "\<forall>i. j \<le> i \<and> i < pos \<longrightarrow> priority (?cs ! i) < ?prio"
    using low by auto
  have stop': "0 < j \<longrightarrow> \<not> priority (?cs ! (j - 1)) < ?prio"
    using stop j by (cases j) auto
  show ?thesis using j res low' stop' by blast
qed





section \<open>The longest common prefix\<close>

lemma lcp_loop_spec:
  "i \<le> length a \<Longrightarrow> i \<le> length b \<Longrightarrow> take i a = take i b \<Longrightarrow>
     i \<le> lcp_loop a b i \<and> lcp_loop a b i \<le> length a \<and> lcp_loop a b i \<le> length b
   \<and> take (lcp_loop a b i) a = take (lcp_loop a b i) b
   \<and> (lcp_loop a b i < length a \<and> lcp_loop a b i < length b
        \<longrightarrow> a ! lcp_loop a b i \<noteq> b ! lcp_loop a b i)"
proof (induction a b i rule: lcp_loop.induct)
  case (1 a b i)
  show ?case
  proof (cases "i < min (length a) (length b) \<and> a ! i = b ! i")
    case True
    then have "take (i + 1) a = take (i + 1) b"
      using "1.prems" by (simp add: take_Suc_conv_app_nth)
    with True "1.IH" have "i + 1 \<le> lcp_loop a b (i + 1) \<and> lcp_loop a b (i + 1) \<le> length a
        \<and> lcp_loop a b (i + 1) \<le> length b
        \<and> take (lcp_loop a b (i + 1)) a = take (lcp_loop a b (i + 1)) b
        \<and> (lcp_loop a b (i + 1) < length a \<and> lcp_loop a b (i + 1) < length b
              \<longrightarrow> a ! lcp_loop a b (i + 1) \<noteq> b ! lcp_loop a b (i + 1))"
      by simp
    moreover have "lcp_loop a b i = lcp_loop a b (i + 1)"
      by (subst lcp_loop.simps) (rule if_P[OF True])
    ultimately show ?thesis by simp
  next
    case False
    then have "lcp_loop a b i = i"
      by (subst lcp_loop.simps) (rule if_not_P[OF False])
    with False "1.prems" show ?thesis by auto
  qed
qed

lemma lcp_le: "longestCommonPrefix a b \<le> length a" "longestCommonPrefix a b \<le> length b"
  using lcp_loop_spec[of 0 a b] by (simp_all add: longestCommonPrefix_def)

lemma lcp_take: "take (longestCommonPrefix a b) a = take (longestCommonPrefix a b) b"
  using lcp_loop_spec[of 0 a b] by (simp add: longestCommonPrefix_def)

lemma lcp_differ:
  "longestCommonPrefix a b < length a \<Longrightarrow> longestCommonPrefix a b < length b \<Longrightarrow>
     a ! longestCommonPrefix a b \<noteq> b ! longestCommonPrefix a b"
  using lcp_loop_spec[of 0 a b] by (simp add: longestCommonPrefix_def)

lemma lcp_zero: "a \<noteq> [] \<Longrightarrow> b \<noteq> [] \<Longrightarrow> a ! 0 \<noteq> b ! 0 \<Longrightarrow> longestCommonPrefix a b = 0"
  unfolding longestCommonPrefix_def by (subst lcp_loop.simps) simp

lemma lcp_pos: "a \<noteq> [] \<Longrightarrow> b \<noteq> [] \<Longrightarrow> a ! 0 = b ! 0 \<Longrightarrow> 0 < longestCommonPrefix a b"
proof (rule ccontr)
  assume a: "a \<noteq> []" "b \<noteq> []" "a ! 0 = b ! 0" and "\<not> 0 < longestCommonPrefix a b"
  then have z: "longestCommonPrefix a b = 0" by simp
  with a lcp_differ[of a b] show False by simp
qed

section \<open>The walk that never returns\<close>

text \<open>
  The branch commented \<open>'/' after param\<close> goes down into an only child whenever the
  next byte of the path is a slash, whatever the child's segment begins with.  Where
  that segment begins with another byte, the common prefix is empty: the node is split
  at 0, which leaves it with the empty segment and an only child that is the node as it
  was, priority included, and the next byte is still the slash.  The loop is then in
  the state it was in one pass before.
\<close>

lemma walk_step_slash:
  assumes "path n \<noteq> []" "pth \<noteq> []" "pth ! 0 = CHR ''/''" "path n ! 0 \<noteq> CHR ''/''"
  shows "walk_step n pth fp hs =
           Descend (Node [] [path n ! 0] (priority n) [n] None (fullPath n)) 0 pth"
proof -
  have i0: "longestCommonPrefix pth (path n) = 0"
    using assms by (intro lcp_zero) auto
  have "bump (Node (path n) (indices n) (priority n - 1) (children n) (handlers n) (fullPath n)) = n"
    by (cases n) (simp add: bump_def)
  then show ?thesis
    using assms i0 by (simp add: walk_step_def Let_def split_edge_def set_child_def)
qed

lemma walk_slash_no_return:
  assumes "walk n pth fp hs = Some y"
  shows "\<not> (path n \<noteq> [] \<and> pth \<noteq> [] \<and> pth ! 0 = CHR ''/'' \<and> path n ! 0 \<noteq> CHR ''/'')"
proof (rule walk.raw_induct[where P = "\<lambda>n pth fp hs y.
    \<not> (path n \<noteq> [] \<and> pth \<noteq> [] \<and> pth ! 0 = CHR ''/'' \<and> path n ! 0 \<noteq> CHR ''/'')", OF _ assms],
    goal_cases)
  case (1 walk' n pth fp hs y)
  note IH = 1(1) and body = 1(2)
  show ?case
  proof
    assume bad: "path n \<noteq> [] \<and> pth \<noteq> [] \<and> pth ! 0 = CHR ''/'' \<and> path n ! 0 \<noteq> CHR ''/''"
    then have "walk_step n pth fp hs =
           Descend (Node [] [path n ! 0] (priority n) [n] None (fullPath n)) 0 pth"
      by (intro walk_step_slash) auto
    with body obtain r where "walk' n pth fp hs = Some r"
      by (cases "walk' n pth fp hs") auto
    from IH[OF this] bad show False by simp
  qed
qed

lemma walk_slash_diverges:
  "path n \<noteq> [] \<Longrightarrow> pth \<noteq> [] \<Longrightarrow> pth ! 0 = CHR ''/'' \<Longrightarrow> path n ! 0 \<noteq> CHR ''/'' \<Longrightarrow>
     walk n pth fp hs = None"
  using walk_slash_no_return[of n pth fp hs] by (cases "walk n pth fp hs") auto

lemma lcp_eval1: "longestCommonPrefix ''/a/'' ''/a'' = 2"
  by code_simp

lemma looping_tree_step:
  "walk_step (Node ''/a'' ''b'' 3 [Node ''b'' [] 1 [] (fakeHandler ''/ab'') ''/ab'']
                (fakeHandler ''/a'') ''/a'') ''/a/'' ''/a/'' hs
     = Descend (Node ''/a'' ''b'' 3 [Node ''b'' [] 2 [] (fakeHandler ''/ab'') ''/ab'']
                  (fakeHandler ''/a'') ''/a'') 0 ''/''"
  by (simp add: walk_step_def Let_def lcp_eval1 set_child_def bump_def)

lemma looping_tree_reached:
  "addRoutes empty_tree [(''/a'', fakeHandler ''/a''), (''/ab'', fakeHandler ''/ab'')]
     = Some (Inr looping_tree)"
  by code_simp

lemma looping_tree_diverges: "addRoute looping_tree ''/a/'' hs = None"
proof -
  have d: "walk (Node ''b'' [] 2 [] (fakeHandler ''/ab'') ''/ab'') ''/'' ''/a/'' hs = None"
    by (rule walk_slash_diverges) simp_all
  show ?thesis
    unfolding addRoute_def looping_tree_def
    by (subst walk.simps) (simp add: Let_def looping_tree_step d)
qed

text \<open>The same loop right after a split, in the second registration on a tree: the root
  \<open>/ab\<close> is split into \<open>/a\<close> and \<open>b\<close>, the next byte is a slash and \<open>b\<close> is the only
  child.\<close>

lemma lcp_eval2: "longestCommonPrefix ''/a/'' ''/ab'' = 2"
  by code_simp

lemma split_then_slash_diverges:
  "addRoutes empty_tree [(''/ab'', fakeHandler ''/ab'')]
     = Some (Inr (Node ''/ab'' [] 1 [] (fakeHandler ''/ab'') ''/ab''))
   \<and> addRoute (Node ''/ab'' [] 1 [] (fakeHandler ''/ab'') ''/ab'') ''/a/'' hs = None"
proof
  show "addRoutes empty_tree [(''/ab'', fakeHandler ''/ab'')]
     = Some (Inr (Node ''/ab'' [] 1 [] (fakeHandler ''/ab'') ''/ab''))"
    by code_simp
  have s: "walk_step (Node ''/ab'' [] 2 [] (fakeHandler ''/ab'') ''/ab'') ''/a/'' ''/a/'' hs
     = Descend (Node ''/a'' ''b'' 2 [Node ''b'' [] 2 [] (fakeHandler ''/ab'') ''/ab''] None ''/ab'')
         0 ''/''"
    by (simp add: walk_step_def Let_def lcp_eval2 split_edge_def set_child_def bump_def)
  have d: "walk (Node ''b'' [] 2 [] (fakeHandler ''/ab'') ''/ab'') ''/'' ''/a/'' hs = None"
    by (rule walk_slash_diverges) simp_all
  show "addRoute (Node ''/ab'' [] 1 [] (fakeHandler ''/ab'') ''/ab'') ''/a/'' hs = None"
    unfolding addRoute_def
    by (subst walk.simps) (simp add: Let_def s d)
qed

text \<open>
  Claim C2 (termination of \<open>addRoute\<close>) fails on the code.  Registering \<open>/a\<close> and
  \<open>/ab\<close> on the empty tree returns \<open>looping_tree\<close>; on that tree the
  registration of \<open>/a/\<close>, with any handler chain, never returns: it neither attaches
  the handlers nor panics.
\<close>

theorem addRoute_never_returns:
  "addRoutes empty_tree [(''/a'', fakeHandler ''/a''), (''/ab'', fakeHandler ''/ab'')]
     = Some (Inr looping_tree)
   \<and> addRoute looping_tree ''/a/'' hs = None"
  using looping_tree_reached looping_tree_diverges by simp

text \<open>
  Claim C4 (no non-root node with an empty segment) fails on the code, in the same call.
  Registering \<open>/a/\<close> on \<open>looping_tree\<close>, the first pass of the loop leaves the root
  unsplit and goes down into its only child \<open>b\<close> by the slash branch; the
  second pass, at that child with the rest \<open>/\<close> of the path, splits it at 0: the
  non-root node the loop stands at now has the empty segment, and the loop goes on at
  its only child with the same rest of the path.
\<close>

theorem walk_step_empties_segment:
  "addRoutes empty_tree [(''/a'', fakeHandler ''/a''), (''/ab'', fakeHandler ''/ab'')]
     = Some (Inr looping_tree)
   \<and> walk_step (Node ''/a'' ''b'' (priority looping_tree + 1) (children looping_tree)
                  (handlers looping_tree) ''/a'') ''/a/'' ''/a/'' hs
       = Descend (Node ''/a'' ''b'' 3 [Node ''b'' [] 2 [] (fakeHandler ''/ab'') ''/ab'']
                    (fakeHandler ''/a'') ''/a'') 0 ''/''
   \<and> walk_step (Node ''b'' [] 2 [] (fakeHandler ''/ab'') ''/ab'') ''/'' ''/a/'' hs
       = Descend (Node [] ''b'' 2 [Node ''b'' [] 2 [] (fakeHandler ''/ab'') ''/ab''] None ''/ab'')
           0 ''/''"
proof (intro conjI)
  show "addRoutes empty_tree [(''/a'', fakeHandler ''/a''), (''/ab'', fakeHandler ''/ab'')]
     = Some (Inr looping_tree)"
    by (rule looping_tree_reached)
next
  show "walk_step (Node ''/a'' ''b'' (priority looping_tree + 1) (children looping_tree)
                  (handlers looping_tree) ''/a'') ''/a/'' ''/a/'' hs
       = Descend (Node ''/a'' ''b'' 3 [Node ''b'' [] 2 [] (fakeHandler ''/ab'') ''/ab'']
                    (fakeHandler ''/a'') ''/a'') 0 ''/''"
    using looping_tree_step[of hs] by (simp add: looping_tree_def)
next
  show "walk_step (Node ''b'' [] 2 [] (fakeHandler ''/ab'') ''/ab'') ''/'' ''/a/'' hs
       = Descend (Node [] ''b'' 2 [Node ''b'' [] 2 [] (fakeHandler ''/ab'') ''/ab''] None ''/ab'')
           0 ''/''"
    using walk_step_slash[of "Node ''b'' [] 2 [] (fakeHandler ''/ab'') ''/ab''" "''/''" "''/a/''" hs]
    by simp
qed

section \<open>The invariant and the lookup\<close>

lemma wf_node_iff:
  "wf_node n \<longleftrightarrow>
     length (indices n) = length (children n) \<and> distinct (indices n)
     \<and> (\<forall>c \<in> set (children n). path c \<noteq> [] \<and> wf_node c)
     \<and> map (\<lambda>c. path c ! 0) (children n) = indices n"
  by (cases n) simp

lemma index_byte_None: "index_byte c xs = None \<longleftrightarrow> c \<notin> set xs"
  by (induction xs) auto

lemma index_byte_Some: "index_byte c xs = Some i \<Longrightarrow> i < length xs \<and> xs ! i = c"
  by (induction xs arbitrary: i) (auto split: if_splits)

lemma index_byte_map_of:
  "length ind = length cs \<Longrightarrow>
     map_of (zip ind cs) b = (case index_byte b ind of None \<Rightarrow> None | Some i \<Rightarrow> Some (cs ! i))"
proof (induction ind arbitrary: cs)
  case Nil
  then show ?case by simp
next
  case (Cons x xs)
  then obtain c cs' where cs: "cs = c # cs'" by (cases cs) auto
  with Cons show ?case
    by (cases "index_byte b xs") auto
qed

lemma getValue_kid:
  assumes "length (indices n) = length (children n)"
  shows "getValue n q =
     (if length (path n) < length q \<and> take (length (path n)) q = path n then
        (case map_of (zip (indices n) (children n)) (q ! length (path n)) of
           None \<Rightarrow> Inr None
         | Some c \<Rightarrow> getValue c (drop (length (path n)) q))
      else if q = path n then Inr (handlers n) else Inr None)"
proof (cases "length (path n) < length q \<and> take (length (path n)) q = path n")
  case False
  then show ?thesis by (subst getValue.simps) auto
next
  case True
  then have b: "drop (length (path n)) q ! 0 = q ! length (path n)"
    by simp
  show ?thesis
  proof (cases "index_byte (q ! length (path n)) (indices n)")
    case None
    with True b assms show ?thesis
      by (subst getValue.simps) (simp add: index_byte_map_of)
  next
    case (Some i)
    then have "i < length (children n)"
      using index_byte_Some[OF Some] assms by simp
    with Some True b assms show ?thesis
      by (subst getValue.simps) (simp add: index_byte_map_of)
  qed
qed

lemma getValue_fields:
  "path a = path b \<Longrightarrow> indices a = indices b \<Longrightarrow> children a = children b \<Longrightarrow>
   handlers a = handlers b \<Longrightarrow> getValue a q = getValue b q"
  by (subst getValue.simps, subst (2) getValue.simps) (auto split: option.splits)

lemma getValue_bump: "getValue (bump c) q = getValue c q"
  by (rule getValue_fields) (simp_all add: bump_def)

lemma wf_bump: "wf_node (bump c) = wf_node c"
  by (cases c) (simp add: bump_def)

lemma move_to_upd: "k < length xs \<Longrightarrow> j \<le> k \<Longrightarrow> move_to (xs[k := y]) j k x = move_to xs j k x"
  by (simp add: move_to_def drop_update_swap)

lemma move_to_update: "k < length xs \<Longrightarrow> j \<le> k \<Longrightarrow> (move_to xs j k x)[j := y] = move_to xs j k y"
  by (simp add: move_to_def list_update_append)

lemma map_move_to: "map f (move_to xs j k x) = move_to (map f xs) j k (f x)"
  by (simp add: move_to_def take_map drop_map)

lemma set_move_to: "j \<le> k \<Longrightarrow> k < length xs \<Longrightarrow> set (move_to xs j k x) = set (xs[k := x])"
  using arg_cong[OF mset_move_to[of j k xs x], of set_mset] by simp

lemma distinct_move_to:
  "j \<le> k \<Longrightarrow> k < length xs \<Longrightarrow> distinct (move_to xs j k (xs ! k)) = distinct xs"
  using mset_move_to[of j k xs "xs ! k"]
    mset_eq_imp_distinct_iff[of "move_to xs j k (xs ! k)" xs] by simp

lemma map_of_update_at:
  "distinct (map fst xs) \<Longrightarrow> k < length xs \<Longrightarrow> fst (xs ! k) = a \<Longrightarrow>
     map_of (xs[k := (a, v)]) = (map_of xs)(a \<mapsto> v)"
proof (induction xs arbitrary: k)
  case Nil
  then show ?case by simp
next
  case (Cons x xs)
  show ?case
  proof (cases k)
    case 0
    with Cons.prems show ?thesis by (cases x) auto
  next
    case (Suc k')
    with Cons.prems have k': "k' < length xs" and a': "fst (xs ! k') = a"
      by simp_all
    then have "a \<in> set (map fst xs)"
      using nth_mem[of k' "map fst xs"] by simp
    moreover from Cons.prems have "fst x \<notin> set (map fst xs)"
      by simp
    ultimately have ne: "fst x \<noteq> a"
      by blast
    from Cons.prems have "distinct (map fst xs)" by simp
    from Cons.IH[OF this k' a'] ne Suc show ?thesis
      by (cases x) (auto simp: fun_eq_iff)
  qed
qed

lemma map_of_move_to:
  assumes d: "distinct (map fst xs)" and j: "j \<le> k" and k: "k < length xs" and a: "fst (xs ! k) = a"
  shows "map_of (move_to xs j k (a, v)) = (map_of xs)(a \<mapsto> v)"
proof -
  have m: "mset (move_to xs j k (a, v)) = mset (xs[k := (a, v)])"
    using j k by (rule mset_move_to)
  have f: "map fst (xs[k := (a, v)]) = map fst xs"
    using a k by (simp add: map_update list_update_same_conv)
  have "mset (map fst (move_to xs j k (a, v))) = mset (map fst (xs[k := (a, v)]))"
    using arg_cong[OF m, of "image_mset fst"] by simp
  then have d1: "distinct (map fst (move_to xs j k (a, v)))"
    using d f mset_eq_imp_distinct_iff[of "map fst (move_to xs j k (a, v))" "map fst xs"] by simp
  have d2: "distinct (map fst (xs[k := (a, v)]))"
    using d f by simp
  have "set (move_to xs j k (a, v)) = set (xs[k := (a, v)])"
    using arg_cong[OF m, of set_mset] by simp
  then have "map_of (move_to xs j k (a, v)) = map_of (xs[k := (a, v)])"
    using d1 d2 by (simp add: map_of_inject_set)
  then show ?thesis
    using map_of_update_at[OF d k a] by simp
qed

section \<open>Replacing a child, splitting an edge\<close>

lemma getValue_leaf: "getValue (Node p [] pr [] h fp) q = (if q = p then Inr h else Inr None)"
  by (subst getValue.simps) auto

lemma drop_eq_iff: "take i q = take i p \<Longrightarrow> (drop i q = drop i p) = (q = p)"
  by (metis append_take_drop_id)

lemma getValue_replace_child:
  assumes len: "length ind = length cs" and dist: "distinct ind" and k: "k < length cs"
    and j: "j \<le> k" and c: "ind ! k = pth ! i" and i: "i < length pth"
    and ch: "\<And>q'. getValue ch q' = (if q' = drop i pth then Inr hs else getValue (cs ! k) q')"
  shows "getValue (Node (take i pth) (move_to ind j k (pth ! i)) pr (move_to cs j k ch) h fp) q
       = (if q = pth then Inr hs else getValue (Node (take i pth) ind pr' cs h fp') q)"
proof -
  let ?n' = "Node (take i pth) (move_to ind j k (pth ! i)) pr (move_to cs j k ch) h fp"
  let ?n = "Node (take i pth) ind pr' cs h fp'"
  have kz: "k < length (zip ind cs)" using k len by simp
  have z: "zip (move_to ind j k (pth ! i)) (move_to cs j k ch) = move_to (zip ind cs) j k (pth ! i, ch)"
    using zip_move_to[of j k ind cs] j k len by simp
  have d: "distinct (map fst (zip ind cs))" using dist len by simp
  have f: "fst (zip ind cs ! k) = pth ! i" using k len c by simp
  have m': "map_of (zip (move_to ind j k (pth ! i)) (move_to cs j k ch))
             = (map_of (zip ind cs))(pth ! i \<mapsto> ch)"
    unfolding z by (rule map_of_move_to[OF d j kz f])
  have mk: "map_of (zip ind cs) (pth ! i) = Some (cs ! k)"
    using map_of_zip_nth[OF len dist k] c by simp
  have len': "length (indices ?n') = length (children ?n')"
    using j k len by (simp add: length_move_to)
  have lenn: "length (indices ?n) = length (children ?n)" using len by simp
  have lp: "min (length pth) i = i" using i by simp
  note gk' = getValue_kid[OF len', of q] and gk = getValue_kid[OF lenn, of q]
  show ?thesis
  proof (cases "i < length q \<and> take i q = take i pth")
    case True
    then have eq: "(drop i q = drop i pth) = (q = pth)" by (simp add: drop_eq_iff)
    show ?thesis
    proof (cases "q ! i = pth ! i")
      case True
      with \<open>i < length q \<and> take i q = take i pth\<close> eq show ?thesis
        unfolding gk' gk by (simp add: lp m' mk ch)
    next
      case False
      then have "q \<noteq> pth" by auto
      with False \<open>i < length q \<and> take i q = take i pth\<close> show ?thesis
        unfolding gk' gk by (auto simp add: lp m' split: option.splits)
    qed
  next
    case False
    then have "q \<noteq> pth" using i by auto
    with False show ?thesis
      unfolding gk' gk by (auto simp add: lp)
  qed
qed

lemma wf_replace_child:
  assumes dist: "distinct ind" and k: "k < length cs" and j: "j \<le> k"
    and len: "length ind = length cs"
    and ok: "\<forall>x\<in>set (cs[k := ch]). path x \<noteq> [] \<and> wf_node x"
    and first: "map (\<lambda>x. path x ! 0) (cs[k := ch]) = ind"
  shows "wf_node (Node p (move_to ind j k (ind ! k)) pr (move_to cs j k ch) h fp)"
proof -
  have fk: "path ch ! 0 = ind ! k"
    using first k by (metis length_list_update nth_list_update_eq nth_map)
  have "map (\<lambda>x. path x ! 0) (move_to cs j k ch)
          = move_to (map (\<lambda>x. path x ! 0) (cs[k := ch])) j k (path ch ! 0)"
    using k j by (simp add: map_move_to map_update move_to_upd)
  then have m: "map (\<lambda>x. path x ! 0) (move_to cs j k ch) = move_to ind j k (ind ! k)"
    using first fk by simp
  have d: "distinct (move_to ind j k (ind ! k))"
    using dist distinct_move_to[of j k ind] j k len by simp
  have s: "set (move_to cs j k ch) = set (cs[k := ch])"
    using j k by (rule set_move_to)
  have l: "length (move_to ind j k (ind ! k)) = length (move_to cs j k ch)"
    using j k len by (simp add: length_move_to)
  show ?thesis using m d s l ok by simp
qed

lemma map_of_snoc:
  "map_of (xs @ [(c, x)]) b
     = (case map_of xs b of None \<Rightarrow> if b = c then Some x else None | Some y \<Rightarrow> Some y)"
  by (induction xs) auto

lemma getValue_dead_child:
  assumes len: "length ind = length cs" and c: "c \<notin> set ind"
    and dead: "\<And>q'. getValue x q' = Inr None"
  shows "getValue (Node p (ind @ [c]) pr (cs @ [x]) h fp) q = getValue (Node p ind pr' cs h fp') q"
proof -
  let ?n' = "Node p (ind @ [c]) pr (cs @ [x]) h fp"
  let ?n = "Node p ind pr' cs h fp'"
  have len': "length (indices ?n') = length (children ?n')" using len by simp
  have lenn: "length (indices ?n) = length (children ?n)" using len by simp
  have "fst ` set (zip ind cs) = set ind"
    using arg_cong[OF map_fst_zip[OF len], of set] by simp
  then have none: "map_of (zip ind cs) c = None"
    using c by (simp add: map_of_eq_None_iff)
  have m: "map_of (zip (ind @ [c]) (cs @ [x])) b
         = (case map_of (zip ind cs) b of None \<Rightarrow> if b = c then Some x else None | Some y \<Rightarrow> Some y)" for b
    using len by (simp only: zip_append list.size zip.simps list.case map_of_snoc)
  show ?thesis
    unfolding getValue_kid[OF len', of q] getValue_kid[OF lenn, of q]
    by (auto simp: m none dead split: option.splits)
qed

lemma getValue_split:
  assumes i: "i < length (path n)" and t: "take i pth = take i (path n)" and ip: "i \<le> length pth"
  shows "getValue (split_edge n pth i) q = getValue n q"
proof -
  let ?child = "Node (drop i (path n)) (indices n) (priority n - 1) (children n) (handlers n) (fullPath n)"
  have lp: "min (length pth) i = i" using ip by simp
  show ?thesis
  proof (cases "i < length q \<and> take i q = take i pth")
    case False
    then have a: "getValue (split_edge n pth i) q = Inr None"
      by (subst getValue.simps) (auto simp: split_edge_def lp)
    have "\<not> (length (path n) < length q \<and> take (length (path n)) q = path n)"
    proof
      assume h: "length (path n) < length q \<and> take (length (path n)) q = path n"
      then have "take i (take (length (path n)) q) = take i (path n)" by simp
      then have "take i q = take i (path n)" using i by (simp add: min_def)
      with h i t False show False by simp
    qed
    moreover have "q \<noteq> path n" using False i t by auto
    ultimately have "getValue n q = Inr None"
      by (subst getValue.simps) auto
    with a show ?thesis by simp
  next
    case True
    define a where "a = take i (path n)"
    define r where "r = drop i q"
    define s where "s = drop i (path n)"
    have "take i q @ drop i q = q" by (rule append_take_drop_id)
    then have q: "q = a @ r" using True t by (simp only: a_def r_def)
    have pn: "path n = a @ s" by (simp add: a_def s_def)
    have la: "length a = i" using i by (simp add: a_def)
    have r: "r \<noteq> []" using True by (simp add: r_def)
    have s: "s \<noteq> []" using i by (simp add: s_def)
    have ta: "take i pth = a" using t by (simp add: a_def)
    have qi: "q ! i = r ! 0" using q la by (simp add: nth_append)
    have pi: "path n ! i = s ! 0" using pn la by (simp add: nth_append)
    have se: "split_edge n pth i
                = Node a [s ! 0] (priority n)
                    [Node s (indices n) (priority n - 1) (children n) (handlers n) (fullPath n)]
                    None (fullPath n)"
      by (simp add: split_edge_def ta pi s_def)
    have g1: "getValue (split_edge n pth i) q
              = (if r ! 0 = s ! 0
                 then getValue (Node s (indices n) (priority n - 1) (children n) (handlers n)
                        (fullPath n)) r
                 else Inr None)"
      unfolding se q using r by (subst getValue.simps) (simp add: nth_append)
    have g2: "getValue (Node s (indices n) (priority n - 1) (children n) (handlers n)
                        (fullPath n)) r =
       (if length s < length r \<and> take (length s) r = s then
          (case index_byte (drop (length s) r ! 0) (indices n) of
             Some t \<Rightarrow> if t < length (children n)
                  then getValue (children n ! t) (drop (length s) r) else Inl IndexOutOfRange
           | None \<Rightarrow> Inr None)
        else if r = s then Inr (handlers n) else Inr None)"
      by (subst getValue.simps) (auto split: option.splits)
    have g3: "getValue n q =
       (if length s < length r \<and> take (length s) r = s then
          (case index_byte (drop (length s) r ! 0) (indices n) of
             Some t \<Rightarrow> if t < length (children n)
                  then getValue (children n ! t) (drop (length s) r) else Inl IndexOutOfRange
           | None \<Rightarrow> Inr None)
        else if r = s then Inr (handlers n) else Inr None)"
      by (subst getValue.simps) (auto simp: q pn split: option.splits)
    have ne: "r ! 0 \<noteq> s ! 0 \<Longrightarrow> \<not> (length s < length r \<and> take (length s) r = s) \<and> r \<noteq> s"
      using r s by (metis hd_conv_nth hd_take length_greater_0_conv)
    show ?thesis
      unfolding g1 g2 g3 using ne by auto
  qed
qed

lemma wf_split: "wf_node n \<Longrightarrow> i < length (path n) \<Longrightarrow> wf_node (split_edge n pth i)"
  by (cases n) (simp add: split_edge_def)

section \<open>One pass of the walk\<close>

lemma after_split:
  assumes wf: "wf_node n" and pn: "path n \<noteq> []" and pp: "pth \<noteq> []"
    and first: "pth ! 0 = path n ! 0"
  defines "i \<equiv> longestCommonPrefix pth (path n)"
  defines "n1 \<equiv> (if i < length (path n) then split_edge n pth i else n)"
  shows "0 < i" and "i \<le> length pth" and "wf_node n1" and "path n1 = take i pth"
    and "getValue n1 q = getValue n q" and "path n1 ! 0 = path n ! 0"
proof -
  show i0: "0 < i" unfolding i_def using pp pn first by (rule lcp_pos)
  show il: "i \<le> length pth" unfolding i_def by (rule lcp_le)
  have il2: "i \<le> length (path n)" unfolding i_def by (rule lcp_le)
  have t: "take i pth = take i (path n)" unfolding i_def by (rule lcp_take)
  show "wf_node n1" using wf by (simp add: n1_def wf_split)
  show p1: "path n1 = take i pth"
    using t il2 by (simp add: n1_def split_edge_def)
  show "getValue n1 q = getValue n q"
    using t il by (simp add: n1_def getValue_split)
  show "path n1 ! 0 = path n ! 0"
    using p1 i0 first by simp
qed

lemma continue_at_child:
  assumes wf: "wf_node n1" and p1: "path n1 = take i pth" and i: "i < length pth"
    and k: "k < length (children n1)" and j: "j \<le> k" and c: "indices n1 ! k = pth ! i"
  shows "getValue n1 pth = getValue (children n1 ! k) (drop i pth)"
    and "wf_node ch \<Longrightarrow> path ch \<noteq> [] \<Longrightarrow> path ch ! 0 = pth ! i \<Longrightarrow>
         (\<And>q'. getValue ch q' = (if q' = drop i pth then Inr hs
                                   else getValue (children n1 ! k) q')) \<Longrightarrow>
         wf_node (Node (path n1) (move_to (indices n1) j k (indices n1 ! k)) (priority n1)
                    (move_to (children n1) j k ch) (handlers n1) (fullPath n1))
         \<and> (\<forall>q. getValue (Node (path n1) (move_to (indices n1) j k (indices n1 ! k)) (priority n1)
                    (move_to (children n1) j k ch) (handlers n1) (fullPath n1)) q
                 = (if q = pth then Inr hs else getValue n1 q))"
proof -
  from wf have len: "length (indices n1) = length (children n1)"
    and dist: "distinct (indices n1)"
    and ok: "\<forall>x\<in>set (children n1). path x \<noteq> [] \<and> wf_node x"
    and fb: "map (\<lambda>x. path x ! 0) (children n1) = indices n1"
    by (simp_all add: wf_node_iff[of n1])
  have lp: "length (path n1) = i" using p1 i by simp
  have mk: "map_of (zip (indices n1) (children n1)) (pth ! i) = Some (children n1 ! k)"
    using map_of_zip_nth[OF len dist k] c by simp
  show "getValue n1 pth = getValue (children n1 ! k) (drop i pth)"
    unfolding getValue_kid[OF len, of pth] using i p1 by (simp add: lp mk)
  assume ch: "wf_node ch" "path ch \<noteq> []" "path ch ! 0 = pth ! i"
    and gv: "\<And>q'. getValue ch q' = (if q' = drop i pth then Inr hs
                                   else getValue (children n1 ! k) q')"
  have ok': "\<forall>x\<in>set ((children n1)[k := ch]). path x \<noteq> [] \<and> wf_node x"
    using ok ch set_update_subset_insert[of "children n1" k ch] by auto
  have fb': "map (\<lambda>x. path x ! 0) ((children n1)[k := ch]) = indices n1"
    using fb ch c by (simp add: map_update list_update_same_conv k len)
  have w: "wf_node (Node (path n1) (move_to (indices n1) j k (indices n1 ! k)) (priority n1)
                    (move_to (children n1) j k ch) (handlers n1) (fullPath n1))"
    by (rule wf_replace_child[OF dist k j len ok' fb'])
  have n1: "Node (take i pth) (indices n1) (priority n1) (children n1) (handlers n1) (fullPath n1) = n1"
    using p1 by (cases n1) simp
  have g: "getValue (Node (path n1) (move_to (indices n1) j k (indices n1 ! k)) (priority n1)
                    (move_to (children n1) j k ch) (handlers n1) (fullPath n1)) q
                 = (if q = pth then Inr hs else getValue n1 q)" for q
    using getValue_replace_child[OF len dist k j c i gv, of "priority n1" "handlers n1"
        "fullPath n1" q "priority n1" "fullPath n1"]
    by (simp add: p1 c n1)
  show "wf_node (Node (path n1) (move_to (indices n1) j k (indices n1 ! k)) (priority n1)
                    (move_to (children n1) j k ch) (handlers n1) (fullPath n1))
         \<and> (\<forall>q. getValue (Node (path n1) (move_to (indices n1) j k (indices n1 ! k)) (priority n1)
                    (move_to (children n1) j k ch) (handlers n1) (fullPath n1)) q
                 = (if q = pth then Inr hs else getValue n1 q))"
    using w g by blast
qed

lemma registers_unfold_child:
  assumes "registers c0 p hs ch"
  shows "wf_node ch" "path ch \<noteq> []" "path ch ! 0 = path c0 ! 0"
    "getValue ch q = (if q = p then Inr hs else getValue c0 q)"
  using assms by (simp_all add: registers_def)

lemma step_exact:
  assumes wf: "wf_node n1" and p1: "path n1 = pth" and pp: "pth \<noteq> []"
  shows "getValue n1 pth = Inr (handlers n1)"
    and "registers n1 pth hs (Node (path n1) (indices n1) (priority n1) (children n1) hs fp)"
proof -
  show "getValue n1 pth = Inr (handlers n1)"
    using p1 by (subst getValue.simps) simp
  have w: "wf_node (Node (path n1) (indices n1) (priority n1) (children n1) hs fp)"
    using wf by (cases n1) simp
  have "getValue (Node (path n1) (indices n1) (priority n1) (children n1) hs fp) q
          = (if q = pth then Inr hs else getValue n1 q)" for q
    using p1 by (subst getValue.simps, subst (2) getValue.simps) (auto split: option.splits)
  with w p1 pp show "registers n1 pth hs (Node (path n1) (indices n1) (priority n1) (children n1) hs fp)"
    by (simp add: registers_def)
qed

lemma step_slash:
  assumes wf: "wf_node n1" and p1: "path n1 = take i pth" and i: "i < length pth" and i0: "0 < i"
    and one: "length (children n1) = 1"
  defines "n2 \<equiv> set_child n1 0 (bump (children n1 ! 0))"
  shows "0 < length (children n2)" and "wf_node (children n2 ! 0)" and "path (children n2 ! 0) \<noteq> []"
    and "drop i pth ! 0 \<noteq> path (children n2 ! 0) ! 0 \<Longrightarrow> getValue n1 pth = Inr None"
    and "drop i pth ! 0 = path (children n2 ! 0) ! 0 \<Longrightarrow>
           getValue n1 pth = getValue (children n2 ! 0) (drop i pth)
         \<and> (\<forall>ch. registers (children n2 ! 0) (drop i pth) hs ch \<longrightarrow>
                  registers n1 pth hs (set_child n2 0 ch))"
proof -
  let ?c0 = "children n1 ! 0"
  from wf have len: "length (indices n1) = length (children n1)"
    and ok: "\<forall>x\<in>set (children n1). path x \<noteq> [] \<and> wf_node x"
    and fb: "map (\<lambda>x. path x ! 0) (children n1) = indices n1"
    by (simp_all add: wf_node_iff[of n1])
  have c0: "?c0 \<in> set (children n1)" using one by simp
  have ch0: "children n2 ! 0 = bump ?c0" using one by (simp add: n2_def set_child_def)
  show "0 < length (children n2)" using one by (simp add: n2_def set_child_def)
  show "wf_node (children n2 ! 0)" using ok c0 ch0 by (simp add: wf_bump)
  show "path (children n2 ! 0) \<noteq> []" using ok c0 ch0 by (simp add: bump_def)
  have k: "0 < length (children n1)" using one by simp
  have ik: "indices n1 ! 0 = path ?c0 ! 0"
    using fb k by (metis nth_map)
  show "getValue n1 pth = Inr None" if ne: "drop i pth ! 0 \<noteq> path (children n2 ! 0) ! 0"
  proof -
    obtain b where b: "indices n1 = [b]" using one len by (cases "indices n1") auto
    obtain x where x: "children n1 = [x]" using one by (cases "children n1") auto
    have "b \<noteq> pth ! i" using ne ik ch0 i b by (simp add: bump_def)
    then have "map_of (zip (indices n1) (children n1)) (pth ! i) = None"
      using b x by simp
    moreover have "length (path n1) = i" using p1 i by simp
    ultimately show ?thesis
      unfolding getValue_kid[OF len, of pth] using i p1 by simp
  qed
  assume m: "drop i pth ! 0 = path (children n2 ! 0) ! 0"
  have c: "indices n1 ! 0 = pth ! i"
    using m ik ch0 i by (simp add: bump_def)
  note cc = continue_at_child[OF wf p1 i k le_refl c]
  have g: "getValue n1 pth = getValue (children n2 ! 0) (drop i pth)"
    using cc(1) ch0 by (simp add: getValue_bump)
  have eq: "set_child n2 0 ch = Node (path n1) (move_to (indices n1) 0 0 (indices n1 ! 0)) (priority n1)
                    (move_to (children n1) 0 0 ch) (handlers n1) (fullPath n1)" for ch
    using k len by (simp add: n2_def set_child_def move_to_same)
  have "registers n1 pth hs (set_child n2 0 ch)" if r: "registers (children n2 ! 0) (drop i pth) hs ch" for ch
  proof -
    note u = registers_unfold_child[OF r]
    have a: "path ch ! 0 = pth ! i" using u(3) m i by simp
    have b: "getValue ch q' = (if q' = drop i pth then Inr hs else getValue (children n1 ! 0) q')" for q'
      using u(4)[of q'] ch0 by (simp add: getValue_bump)
    have "pth \<noteq> []" using i by auto
    with cc(2)[OF u(1) u(2) a b] p1 i i0 show ?thesis
      unfolding eq registers_def by simp
  qed
  with g show "getValue n1 pth = getValue (children n2 ! 0) (drop i pth)
         \<and> (\<forall>ch. registers (children n2 ! 0) (drop i pth) hs ch \<longrightarrow>
                  registers n1 pth hs (set_child n2 0 ch))"
    by blast
qed

lemma step_index:
  assumes wf: "wf_node n1" and p1: "path n1 = take i pth" and i: "i < length pth" and i0: "0 < i"
    and ib: "index_byte (pth ! i) (indices n1) = Some k"
  shows "\<exists>n2 j. incrementChildPrio n1 k = Inr (n2, j) \<and> j < length (children n2)
          \<and> wf_node (children n2 ! j) \<and> path (children n2 ! j) \<noteq> []
          \<and> drop i pth ! 0 = path (children n2 ! j) ! 0
          \<and> getValue n1 pth = getValue (children n2 ! j) (drop i pth)
          \<and> (\<forall>ch. registers (children n2 ! j) (drop i pth) hs ch \<longrightarrow>
                  registers n1 pth hs (set_child n2 j ch))"
proof -
  from wf have len: "length (indices n1) = length (children n1)"
    and ok: "\<forall>x\<in>set (children n1). path x \<noteq> [] \<and> wf_node x"
    and fb: "map (\<lambda>x. path x ! 0) (children n1) = indices n1"
    by (simp_all add: wf_node_iff[of n1])
  from index_byte_Some[OF ib] len have k: "k < length (children n1)" and c: "indices n1 ! k = pth ! i"
    by simp_all
  let ?ck = "children n1 ! k"
  have ck: "?ck \<in> set (children n1)" using k by simp
  have fk: "path ?ck ! 0 = pth ! i" using fb k c by (metis nth_map)
  from incrementChildPrio_shape[OF k len] obtain j where j: "j \<le> k"
    and inc: "incrementChildPrio n1 k =
         Inr (Node (path n1) (move_to (indices n1) j k (indices n1 ! k)) (priority n1)
                   (move_to (children n1) j k (bump ?ck)) (handlers n1) (fullPath n1), j)"
    by blast
  let ?n2 = "Node (path n1) (move_to (indices n1) j k (indices n1 ! k)) (priority n1)
                   (move_to (children n1) j k (bump ?ck)) (handlers n1) (fullPath n1)"
  have jl: "j < length (children ?n2)" using j k by (simp add: length_move_to)
  have cj: "children ?n2 ! j = bump ?ck" using j k by (simp add: nth_move_to)
  note cc = continue_at_child[OF wf p1 i k j c]
  have w: "wf_node (children ?n2 ! j)" using ok ck cj by (simp add: wf_bump)
  have pne: "path (children ?n2 ! j) \<noteq> []" using ok ck cj by (simp add: bump_def)
  have m: "drop i pth ! 0 = path (children ?n2 ! j) ! 0" using cj fk i by (simp add: bump_def)
  have g: "getValue n1 pth = getValue (children ?n2 ! j) (drop i pth)"
    using cc(1) cj by (simp add: getValue_bump)
  have eq: "set_child ?n2 j ch = Node (path n1) (move_to (indices n1) j k (indices n1 ! k)) (priority n1)
                    (move_to (children n1) j k ch) (handlers n1) (fullPath n1)" for ch
    using j k by (simp add: set_child_def move_to_update)
  have "registers n1 pth hs (set_child ?n2 j ch)" if r: "registers (children ?n2 ! j) (drop i pth) hs ch" for ch
  proof -
    note u = registers_unfold_child[OF r]
    have a: "path ch ! 0 = pth ! i" using u(3) m i by simp
    have b: "getValue ch q' = (if q' = drop i pth then Inr hs else getValue ?ck q')" for q'
      using u(4)[of q'] cj by (simp add: getValue_bump)
    have "pth \<noteq> []" using i by auto
    with cc(2)[OF u(1) u(2) a b] p1 i i0 show ?thesis
      unfolding eq registers_def by simp
  qed
  with inc jl w pne m g show ?thesis by blast
qed

lemma step_new:
  fixes fp :: string
  assumes wf: "wf_node n1" and p1: "path n1 = take i pth" and i: "i < length pth" and i0: "0 < i"
    and ib: "index_byte (pth ! i) (indices n1) = None"
  defines "n2 \<equiv> Node (path n1) (indices n1 @ [pth ! i]) (priority n1)
                      (children n1 @ [Node [] [] 0 [] None fp]) (handlers n1) (fullPath n1)"
  shows "length (indices n2) - 1 = length (children n2) - 1"
    and "\<exists>n3 j. incrementChildPrio n2 (length (indices n2) - 1) = Inr (n3, j)
          \<and> getValue n1 pth = Inr None
          \<and> registers n1 pth hs (set_child n3 j (insertChild (children n3 ! j) (drop i pth) fp hs))"
proof -
  let ?c = "pth ! i"
  let ?child = "Node [] [] 0 [] None fp :: 'a node"
  let ?leaf = "Node (drop i pth) [] 1 [] hs fp :: 'a node"
  let ?ind = "indices n1 @ [?c]"
  let ?cs = "children n1 @ [?child]"
  from wf have len: "length (indices n1) = length (children n1)"
    and dist: "distinct (indices n1)"
    and ok: "\<forall>x\<in>set (children n1). path x \<noteq> [] \<and> wf_node x"
    and fb: "map (\<lambda>x. path x ! 0) (children n1) = indices n1"
    by (simp_all add: wf_node_iff[of n1])
  have notin: "?c \<notin> set (indices n1)" using ib by (simp add: index_byte_None)
  define pos where "pos = length (children n1)"
  have pos: "length (indices n2) - 1 = pos" using len by (simp add: n2_def pos_def)
  show "length (indices n2) - 1 = length (children n2) - 1" using len by (simp add: n2_def)
  have k: "pos < length (children n2)" by (simp add: n2_def pos_def)
  have len2: "length (indices n2) = length (children n2)" using len by (simp add: n2_def)
  from incrementChildPrio_shape[OF k len2] obtain j where j: "j \<le> pos"
    and inc: "incrementChildPrio n2 pos =
         Inr (Node (path n2) (move_to (indices n2) j pos (indices n2 ! pos)) (priority n2)
                   (move_to (children n2) j pos (bump (children n2 ! pos))) (handlers n2) (fullPath n2), j)"
    by blast
  let ?n3 = "Node (path n2) (move_to (indices n2) j pos (indices n2 ! pos)) (priority n2)
                   (move_to (children n2) j pos (bump (children n2 ! pos))) (handlers n2) (fullPath n2)"
  have ip: "indices n2 ! pos = ?c" using len by (simp add: n2_def pos_def nth_append)
  have cp: "children n2 ! pos = ?child" by (simp add: n2_def pos_def nth_append)
  have cj: "children ?n3 ! j = bump ?child" using j k cp by (simp add: nth_move_to)
  have leaf: "insertChild (children ?n3 ! j) (drop i pth) fp hs = ?leaf"
    unfolding cj by (simp add: insertChild_def bump_def)
  have kc: "pos < length ?cs" by (simp add: pos_def)
  have lenc: "length ?ind = length ?cs" using len by simp
  have res: "set_child ?n3 j ?leaf
       = Node (take i pth) (move_to ?ind j pos ?c) (priority n1) (move_to ?cs j pos ?leaf)
           (handlers n1) (fullPath n1)"
    using j kc ip by (simp add: set_child_def move_to_update n2_def p1)
  have distc: "distinct ?ind" using dist notin by simp
  have upd: "?cs[pos := ?leaf] = children n1 @ [?leaf]" by (simp add: pos_def)
  have okc: "\<forall>x\<in>set (?cs[pos := ?leaf]). path x \<noteq> [] \<and> wf_node x"
    unfolding upd using ok i by simp
  have fbc: "map (\<lambda>x. path x ! 0) (?cs[pos := ?leaf]) = ?ind"
    unfolding upd using fb i by simp
  have ipc: "?ind ! pos = ?c" using len by (simp add: pos_def nth_append)
  have w: "wf_node (set_child ?n3 j ?leaf)"
    unfolding res using wf_replace_child[OF distc kc j lenc okc fbc] ipc by simp
  have dead: "getValue ?child q' = Inr None" for q'
    by (simp add: getValue_leaf)
  have gl: "getValue ?leaf q' = (if q' = drop i pth then Inr hs else getValue (?cs ! pos) q')" for q'
    by (simp add: getValue_leaf pos_def nth_append)
  have n1: "Node (take i pth) (indices n1) (priority n1) (children n1) (handlers n1) (fullPath n1) = n1"
    using p1 by (cases n1) simp
  have g: "getValue (set_child ?n3 j ?leaf) q = (if q = pth then Inr hs else getValue n1 q)" for q
  proof -
    have "getValue (set_child ?n3 j ?leaf) q
        = (if q = pth then Inr hs
           else getValue (Node (take i pth) ?ind (priority n1) ?cs (handlers n1) (fullPath n1)) q)"
      unfolding res by (rule getValue_replace_child[OF lenc distc kc j ipc i gl])
    also have "getValue (Node (take i pth) ?ind (priority n1) ?cs (handlers n1) (fullPath n1)) q
        = getValue (Node (take i pth) (indices n1) (priority n1) (children n1) (handlers n1) (fullPath n1)) q"
      by (rule getValue_dead_child[OF len notin dead])
    finally show ?thesis by (simp add: n1)
  qed
  have "fst ` set (zip (indices n1) (children n1)) = set (indices n1)"
    using arg_cong[OF map_fst_zip[OF len], of set] by simp
  then have none: "map_of (zip (indices n1) (children n1)) ?c = None"
    using notin by (simp add: map_of_eq_None_iff)
  have lp: "length (path n1) = i" using p1 i by simp
  have gn: "getValue n1 pth = Inr None"
    unfolding getValue_kid[OF len, of pth] using i p1 by (simp add: lp none)
  have "pth \<noteq> []" using i by auto
  then have "registers n1 pth hs (set_child ?n3 j ?leaf)"
    using w g p1 i i0 by (simp add: registers_def res)
  with inc gn leaf pos show "\<exists>n3 j. incrementChildPrio n2 (length (indices n2) - 1) = Inr (n3, j)
          \<and> getValue n1 pth = Inr None
          \<and> registers n1 pth hs (set_child n3 j (insertChild (children n3 ! j) (drop i pth) fp hs))"
    by (metis)
qed

lemma registers_via:
  "registers n1 pth hs n' \<Longrightarrow> (\<And>q. getValue n1 q = getValue n q) \<Longrightarrow> path n1 ! 0 = path n ! 0
     \<Longrightarrow> registers n pth hs n'"
  by (simp add: registers_def)

lemma walk_step_sound:
  assumes wf: "wf_node n" and pn: "path n \<noteq> []" and pp: "pth \<noteq> []"
    and first: "pth ! 0 = path n ! 0"
  shows "case walk_step n pth fp hs of
      Done (Inl e) \<Rightarrow> e = HandlersAlreadyRegistered fp \<and> (\<exists>h. getValue n pth = Inr (Some h))
    | Done (Inr n') \<Rightarrow> getValue n pth = Inr None \<and> registers n pth hs n'
    | Descend n2 k pth1 \<Rightarrow>
        k < length (children n2) \<and> wf_node (children n2 ! k) \<and> path (children n2 ! k) \<noteq> []
        \<and> pth1 \<noteq> [] \<and> length pth1 < length pth
        \<and> (pth1 ! 0 = path (children n2 ! k) ! 0
             \<or> pth1 ! 0 = CHR ''/'' \<and> getValue n pth = Inr None)
        \<and> (pth1 ! 0 = path (children n2 ! k) ! 0 \<longrightarrow>
              getValue n pth = getValue (children n2 ! k) pth1
            \<and> (\<forall>ch. registers (children n2 ! k) pth1 hs ch \<longrightarrow>
                     registers n pth hs (set_child n2 k ch)))"
proof -
  define i where "i = longestCommonPrefix pth (path n)"
  define n1 where "n1 = (if i < length (path n) then split_edge n pth i else n)"
  note A0 = after_split[OF wf pn pp first, folded i_def]
  note A = A0[folded n1_def]
  have gv: "getValue n1 q = getValue n q" for q by (rule A(5))
  have f1: "path n1 ! 0 = path n ! 0" by (rule A(6))
  show ?thesis
  proof (cases "i < length pth")
    case False
    with A(2) have il: "i = length pth" by simp
    then have p1: "path n1 = pth" using A(4) by simp
    note E1 = step_exact(1)[OF A(3) p1 pp]
    note E2 = step_exact(2)[OF A(3) p1 pp, where hs = hs and fp = fp]
    have ws: "walk_step n pth fp hs =
        (if handlers n1 \<noteq> None then Done (Inl (HandlersAlreadyRegistered fp))
         else Done (Inr (Node (path n1) (indices n1) (priority n1) (children n1) hs fp)))"
      using il unfolding walk_step_def Let_def i_def[symmetric] n1_def[symmetric] by simp
    show ?thesis
    proof (cases "handlers n1")
      case None
      with ws E1 registers_via[OF E2 gv f1] gv show ?thesis by simp
    next
      case (Some h)
      with ws E1 gv show ?thesis by simp
    qed
  next
    case True
    have d0: "drop i pth ! 0 = pth ! i" using True by simp
    have dn: "drop i pth \<noteq> []" "length (drop i pth) < length pth" using True A(1) by simp_all
    show ?thesis
    proof (cases "pth ! i = CHR ''/'' \<and> length (children n1) = 1")
      case slash: True
      then have one: "length (children n1) = 1" by simp
      have ws: "walk_step n pth fp hs
                  = Descend (set_child n1 0 (bump (children n1 ! 0))) 0 (drop i pth)"
        using True slash d0
        unfolding walk_step_def Let_def i_def[symmetric] n1_def[symmetric] by simp
      note S = step_slash[OF A(3) A(4) True A(1) one]
      note S4 = S(5)[where hs = hs]
      have "drop i pth ! 0 = path (children (set_child n1 0 (bump (children n1 ! 0))) ! 0) ! 0 \<longrightarrow>
              getValue n pth = getValue (children (set_child n1 0 (bump (children n1 ! 0))) ! 0) (drop i pth)
            \<and> (\<forall>ch. registers (children (set_child n1 0 (bump (children n1 ! 0))) ! 0) (drop i pth) hs ch \<longrightarrow>
                     registers n pth hs (set_child (set_child n1 0 (bump (children n1 ! 0))) 0 ch))"
        using S4 registers_via[OF _ gv f1] gv by metis
      moreover have "drop i pth ! 0 = path (children (set_child n1 0 (bump (children n1 ! 0))) ! 0) ! 0
             \<or> drop i pth ! 0 = CHR ''/'' \<and> getValue n pth = Inr None"
        using S(4) gv d0 slash by auto
      ultimately show ?thesis using ws S(1,2,3) dn by simp
    next
      case noslash: False
      show ?thesis
      proof (cases "index_byte (pth ! i) (indices n1)")
        case (Some k)
        from step_index[OF A(3) A(4) True A(1) Some, where hs = hs] obtain n2 j where
          inc: "incrementChildPrio n1 k = Inr (n2, j)" and jl: "j < length (children n2)"
          and w: "wf_node (children n2 ! j)" and pne: "path (children n2 ! j) \<noteq> []"
          and m: "drop i pth ! 0 = path (children n2 ! j) ! 0"
          and g: "getValue n1 pth = getValue (children n2 ! j) (drop i pth)"
          and r: "\<forall>ch. registers (children n2 ! j) (drop i pth) hs ch \<longrightarrow>
                  registers n1 pth hs (set_child n2 j ch)"
          by blast
        have ws: "walk_step n pth fp hs = Descend n2 j (drop i pth)"
          using True noslash d0 Some inc jl
          unfolding walk_step_def Let_def i_def[symmetric] n1_def[symmetric] by auto
        have "\<forall>ch. registers (children n2 ! j) (drop i pth) hs ch \<longrightarrow>
                  registers n pth hs (set_child n2 j ch)"
          using r registers_via[OF _ gv f1] by blast
        with ws jl w pne m g gv dn show ?thesis by simp
      next
        case None
        note N = step_new[OF A(3) A(4) True A(1) None]
        note N1 = N(1)[where fp = fp]
        from N(2)[where fp = fp and hs = hs] obtain n3 j where
          inc: "incrementChildPrio (Node (path n1) (indices n1 @ [pth ! i]) (priority n1)
                      (children n1 @ [Node [] [] 0 [] None fp]) (handlers n1) (fullPath n1))
                  (length (indices (Node (path n1) (indices n1 @ [pth ! i]) (priority n1)
                      (children n1 @ [Node [] [] 0 [] None fp]) (handlers n1) (fullPath n1))) - 1)
                = Inr (n3, j)"
          and g: "getValue n1 pth = Inr None"
          and r: "registers n1 pth hs (set_child n3 j (insertChild (children n3 ! j) (drop i pth) fp hs))"
          by blast
        have ws: "walk_step n pth fp hs
                    = Done (Inr (set_child n3 j (insertChild (children n3 ! j) (drop i pth) fp hs)))"
          using True noslash d0 None inc N1
          unfolding walk_step_def Let_def i_def[symmetric] n1_def[symmetric] by auto
        from ws g gv registers_via[OF r gv f1] show ?thesis by simp
      qed
    qed
  qed
qed

section \<open>The walk, where it returns\<close>

lemma walk_sound:
  assumes "walk n pth fp hs = Some y"
  shows "wf_node n \<longrightarrow> path n \<noteq> [] \<longrightarrow> pth \<noteq> [] \<longrightarrow>
           (pth ! 0 = path n ! 0 \<or> pth ! 0 = CHR ''/'') \<longrightarrow>
           pth ! 0 = path n ! 0
           \<and> (case y of
                Inl e \<Rightarrow> e = HandlersAlreadyRegistered fp \<and> (\<exists>h. getValue n pth = Inr (Some h))
              | Inr n' \<Rightarrow> getValue n pth = Inr None \<and> registers n pth hs n')"
proof (rule walk.raw_induct[where P = "\<lambda>n pth fp hs y.
    wf_node n \<longrightarrow> path n \<noteq> [] \<longrightarrow> pth \<noteq> [] \<longrightarrow>
           (pth ! 0 = path n ! 0 \<or> pth ! 0 = CHR ''/'') \<longrightarrow>
           pth ! 0 = path n ! 0
           \<and> (case y of
                Inl e \<Rightarrow> e = HandlersAlreadyRegistered fp \<and> (\<exists>h. getValue n pth = Inr (Some h))
              | Inr n' \<Rightarrow> getValue n pth = Inr None \<and> registers n pth hs n')", OF _ assms],
    goal_cases)
  case (1 walk' n pth fp hs y)
  note IH = 1(1) and body = 1(2)
  show ?case
  proof (intro impI)
    assume wf: "wf_node n" and pn: "path n \<noteq> []" and pp: "pth \<noteq> []"
      and fs: "pth ! 0 = path n ! 0 \<or> pth ! 0 = CHR ''/''"
    have first: "pth ! 0 = path n ! 0"
    proof (rule ccontr)
      assume ne: "pth ! 0 \<noteq> path n ! 0"
      with fs have sl: "pth ! 0 = CHR ''/''" "path n ! 0 \<noteq> CHR ''/''" by auto
      have "walk_step n pth fp hs =
           Descend (Node [] [path n ! 0] (priority n) [n] None (fullPath n)) 0 pth"
        using pn pp sl by (rule walk_step_slash)
      with body obtain r where "walk' n pth fp hs = Some r"
        by (cases "walk' n pth fp hs") auto
      from IH[OF this] wf pn pp fs ne show False by simp
    qed
    note S = walk_step_sound[OF wf pn pp first, where fp = fp and hs = hs]
    have "case y of
                Inl e \<Rightarrow> e = HandlersAlreadyRegistered fp \<and> (\<exists>h. getValue n pth = Inr (Some h))
              | Inr n' \<Rightarrow> getValue n pth = Inr None \<and> registers n pth hs n'"
    proof (cases "walk_step n pth fp hs")
      case (Done r)
      with body have "y = r" by simp
      with S Done show ?thesis by (cases r) simp_all
    next
      case (Descend n2 k pth1)
      with body obtain r where w': "walk' (children n2 ! k) pth1 fp hs = Some r"
        and y: "y = put_child n2 k r"
        by (cases "walk' (children n2 ! k) pth1 fp hs") auto
      from S Descend have kl: "k < length (children n2)" and wc: "wf_node (children n2 ! k)"
        and pc: "path (children n2 ! k) \<noteq> []" and p1: "pth1 \<noteq> []"
        and dj: "pth1 ! 0 = path (children n2 ! k) ! 0 \<or> pth1 ! 0 = CHR ''/''"
        and imp: "pth1 ! 0 = path (children n2 ! k) ! 0 \<longrightarrow>
              getValue n pth = getValue (children n2 ! k) pth1
            \<and> (\<forall>ch. registers (children n2 ! k) pth1 hs ch \<longrightarrow>
                     registers n pth hs (set_child n2 k ch))"
        by auto
      from IH[OF w'] wc pc p1 dj have m: "pth1 ! 0 = path (children n2 ! k) ! 0"
        and res: "case r of
                Inl e \<Rightarrow> e = HandlersAlreadyRegistered fp
                          \<and> (\<exists>h. getValue (children n2 ! k) pth1 = Inr (Some h))
              | Inr ch \<Rightarrow> getValue (children n2 ! k) pth1 = Inr None
                          \<and> registers (children n2 ! k) pth1 hs ch"
        by simp_all
      from imp m have g: "getValue n pth = getValue (children n2 ! k) pth1"
        and reg: "\<forall>ch. registers (children n2 ! k) pth1 hs ch \<longrightarrow>
                     registers n pth hs (set_child n2 k ch)"
        by simp_all
      show ?thesis
      proof (cases r)
        case (Inl e)
        with y res g show ?thesis by (simp add: put_child_def)
      next
        case (Inr ch)
        with y res g reg show ?thesis by (simp add: put_child_def)
      qed
    qed
    with first show "pth ! 0 = path n ! 0
           \<and> (case y of
                Inl e \<Rightarrow> e = HandlersAlreadyRegistered fp \<and> (\<exists>h. getValue n pth = Inr (Some h))
              | Inr n' \<Rightarrow> getValue n pth = Inr None \<and> registers n pth hs n')"
      by simp
  qed
qed

section \<open>\<open>addRoute\<close>, where it returns\<close>

lemma addRoute_sound:
  assumes a: "addRoute n pth hs = Some y" and r: "wf_root n" and pp: "pth \<noteq> []"
    and sl: "pth ! 0 = CHR ''/''"
  shows "case y of
      Inl e \<Rightarrow> e = HandlersAlreadyRegistered pth \<and> (\<exists>h. getValue n pth = Inr (Some h))
    | Inr n' \<Rightarrow> getValue n pth = Inr None \<and> wf_root n' \<and> path n' \<noteq> []
        \<and> (\<forall>q. getValue n' q = (if q = pth then Inr hs else getValue n q))"
proof -
  let ?n1 = "Node (path n) (indices n) (priority n + 1) (children n) (handlers n) (fullPath n)"
  from r have wf: "wf_node n" by (simp add: wf_root_def)
  have g1: "getValue ?n1 q = getValue n q" for q
    by (rule getValue_fields) simp_all
  show ?thesis
  proof (cases "path n = [] \<and> children n = []")
    case True
    with r wf have e: "indices n = []" "handlers n = None"
      by (simp_all add: wf_root_def wf_node_iff[of n])
    from a True have y: "y = Inr (Node pth [] (priority n + 1) [] hs pth)"
      by (simp add: addRoute_def Let_def insertChild_def e)
    have n: "n = Node [] [] (priority n) [] None (fullPath n)"
      using True e by (cases n) simp
    have gn: "getValue n q = Inr None" for q
      by (subst n) (simp add: getValue_leaf)
    show ?thesis
      using y gn pp sl by (simp add: getValue_leaf wf_root_def)
  next
    case False
    with r have pn: "path n \<noteq> []" and f: "path n ! 0 = CHR ''/''"
      by (auto simp: wf_root_def split: if_splits)
    from a False have w: "walk ?n1 pth pth hs = Some y"
      by (auto simp: addRoute_def Let_def)
    have wf1: "wf_node ?n1" using wf by (cases n) simp
    from walk_sound[OF w] wf1 pn pp sl f
    have res: "case y of
                Inl e \<Rightarrow> e = HandlersAlreadyRegistered pth \<and> (\<exists>h. getValue ?n1 pth = Inr (Some h))
              | Inr n' \<Rightarrow> getValue ?n1 pth = Inr None \<and> registers ?n1 pth hs n'"
      by simp
    show ?thesis
    proof (cases y)
      case (Inl e)
      with res g1 show ?thesis by simp
    next
      case (Inr n')
      with res g1 f show ?thesis by (simp add: registers_def wf_root_def)
    qed
  qed
qed

lemma getValue_Some_prefix:
  assumes "getValue n pth = Inr (Some h)" and "path n \<noteq> []"
  shows "pth \<noteq> []" and "pth ! 0 = path n ! 0"
proof -
  have c: "length (path n) < length pth \<and> take (length (path n)) pth = path n \<or> pth = path n"
    using assms(1) by (subst (asm) getValue.simps) (auto split: if_splits)
  then show "pth \<noteq> []" using assms(2) by auto
  from c show "pth ! 0 = path n ! 0"
  proof
    assume "length (path n) < length pth \<and> take (length (path n)) pth = path n"
    then have "take (length (path n)) pth ! 0 = path n ! 0" by simp
    then show ?thesis using assms(2) by simp
  qed simp
qed

lemma walk_registered_panics:
  "wf_node n \<Longrightarrow> path n \<noteq> [] \<Longrightarrow> getValue n pth = Inr (Some h) \<Longrightarrow>
     walk n pth fp hs = Some (Inl (HandlersAlreadyRegistered fp))"
proof (induction "length pth" arbitrary: n pth rule: less_induct)
  case less
  note wf = less.prems(1) and pn = less.prems(2) and g = less.prems(3)
  note pre = getValue_Some_prefix[OF g pn]
  note S = walk_step_sound[OF wf pn pre, where fp = fp and hs = hs]
  show ?case
  proof (cases "walk_step n pth fp hs")
    case (Done r)
    show ?thesis
    proof (cases r)
      case (Inl e)
      with S Done show ?thesis by (subst walk.simps) simp
    next
      case (Inr n')
      with S Done g show ?thesis by simp
    qed
  next
    case (Descend n2 k pth1)
    with S g have m: "pth1 ! 0 = path (children n2 ! k) ! 0" by auto
    from S Descend m have wc: "wf_node (children n2 ! k)" and pc: "path (children n2 ! k) \<noteq> []"
      and l: "length pth1 < length pth"
      and gg: "getValue n pth = getValue (children n2 ! k) pth1"
      by simp_all
    from less.hyps[OF l wc pc] gg g
    have "walk (children n2 ! k) pth1 fp hs = Some (Inl (HandlersAlreadyRegistered fp))"
      by simp
    with Descend show ?thesis
      by (subst walk.simps) (simp add: put_child_def)
  qed
qed

lemma addRoute_registered_panics:
  assumes r: "wf_root n" and g: "getValue n pth = Inr (Some h)"
  shows "addRoute n pth hs = Some (Inl (HandlersAlreadyRegistered pth))"
proof -
  let ?n1 = "Node (path n) (indices n) (priority n + 1) (children n) (handlers n) (fullPath n)"
  from r have wf: "wf_node n" by (simp add: wf_root_def)
  have pn: "path n \<noteq> []"
  proof
    assume e: "path n = []"
    with r wf have "n = Node [] [] (priority n) [] None (fullPath n)"
      by (cases n) (simp add: wf_root_def)
    then have "getValue n pth = Inr None"
      by (metis getValue_leaf if_not_P if_P)
    with g show False by simp
  qed
  have wf1: "wf_node ?n1" using wf by (cases n) simp
  have g1: "getValue ?n1 pth = Inr (Some h)"
    using g getValue_fields[of ?n1 n pth] by simp
  from walk_registered_panics[OF wf1 _ g1, of pth hs] pn
  show ?thesis by (simp add: addRoute_def Let_def)
qed

section \<open>The engine after a sequence of registrations\<close>

lemma handleHTTPRequest_get:
  "handleHTTPRequest trees m q = (case get trees m of None \<Rightarrow> Inr None | Some t \<Rightarrow> getValue t q)"
  by (induction trees) auto

lemma get_set_root:
  "get (set_root trees m r) m' = (if m' = m \<and> get trees m \<noteq> None then Some r else get trees m')"
  by (induction trees) auto

lemma get_append:
  "get (trees @ [\<lparr>method = m, root = r\<rparr>]) m'
     = (case get trees m' of Some t \<Rightarrow> Some t | None \<Rightarrow> if m' = m then Some r else None)"
  by (induction trees) auto

lemma registered_snoc:
  "registered (rs @ [(m, p, h)]) m' q
     = (case map_of (map (\<lambda>r. (route_key r, snd (snd r))) rs) (m', q) of
          None \<Rightarrow> if (m', q) = (m, p) then h else None
        | Some y \<Rightarrow> y)"
proof -
  have e: "map (\<lambda>r. (route_key r, snd (snd r))) (rs @ [(m, p, h)])
             = map (\<lambda>r. (route_key r, snd (snd r))) rs @ [((m, p), h)]"
    by (simp add: route_key_def)
  show ?thesis
    unfolding registered_def e map_of_snoc by (auto split: option.splits)
qed

lemma registered_None:
  assumes "\<forall>r \<in> set rs. snd (snd r) \<noteq> None"
  shows "registered rs m p = None \<longleftrightarrow> (m, p) \<notin> route_key ` set rs"
proof (cases "map_of (map (\<lambda>r. (route_key r, snd (snd r))) rs) (m, p)")
  case None
  then have "(m, p) \<notin> fst ` set (map (\<lambda>r. (route_key r, snd (snd r))) rs)"
    by (simp add: map_of_eq_None_iff)
  then have "(m, p) \<notin> route_key ` set rs" by force
  with None show ?thesis by (simp add: registered_def)
next
  case (Some h)
  then have "((m, p), h) \<in> set (map (\<lambda>r. (route_key r, snd (snd r))) rs)"
    by (rule map_of_SomeD)
  then obtain r where r: "r \<in> set rs" "route_key r = (m, p)" "snd (snd r) = h" by auto
  with assms have "h \<noteq> None" by auto
  moreover have "(m, p) \<in> route_key ` set rs" using r by force
  ultimately show ?thesis using Some by (simp add: registered_def)
qed

lemma registered_mem:
  assumes "distinct (map route_key rs)" and "(m, p, h) \<in> set rs"
  shows "registered rs m p = h"
proof -
  have d: "distinct (map fst (map (\<lambda>r. (route_key r, snd (snd r))) rs))"
    using assms(1) by (simp add: comp_def)
  have "((m, p), h) \<in> set (map (\<lambda>r. (route_key r, snd (snd r))) rs)"
    using assms(2) by (force simp: route_key_def)
  from map_of_is_SomeI[OF d this] show ?thesis by (simp add: registered_def)
qed

lemma Engine_addRoute_valid:
  assumes "0 < length p" "p ! 0 = CHR ''/''" "m \<noteq> []" "0 < len_chain h"
  shows "Engine_addRoute trees m p h =
     Option.bind (addRoute (case get trees m of None \<Rightarrow> Node [] [] 0 [] None ''/'' | Some r \<Rightarrow> r) p h)
       (\<lambda>res. Some (case res of Inl e \<Rightarrow> Inl e
          | Inr r1 \<Rightarrow> Inr (set_root
               (case get trees m of None \<Rightarrow> trees @ [\<lparr>method = m, root = Node [] [] 0 [] None ''/''\<rparr>]
                | Some r \<Rightarrow> trees) m r1)))"
  using assms by (simp add: Engine_addRoute_def Let_def split: option.splits)

lemma Engine_addRoute_invalid:
  assumes "\<not> (0 < length p \<and> p ! 0 = CHR ''/'' \<and> m \<noteq> [] \<and> 0 < len_chain h)"
  shows "\<exists>e. Engine_addRoute trees m p h = Some (Inl e)"
  using assms by (auto simp: Engine_addRoute_def)

lemma Engine_addRoute_returns_valid:
  assumes "Engine_addRoute trees m p h = Some (Inr trees')"
  shows "0 < length p \<and> p ! 0 = CHR ''/'' \<and> m \<noteq> [] \<and> 0 < len_chain h"
  using assms by (auto simp: Engine_addRoute_def split: if_splits)

lemma engine_root:
  fixes m :: string
  assumes inv: "engine_inv trees rs"
  defines "r0 \<equiv> (case get trees m of None \<Rightarrow> Node [] [] 0 [] None ''/'' | Some r \<Rightarrow> r)"
  shows "wf_root r0" and "getValue r0 q = Inr (registered rs m q)"
proof -
  show "wf_root r0"
    using inv by (auto simp: r0_def engine_inv_def wf_root_def split: option.splits)
  from inv have "handleHTTPRequest trees m q = Inr (registered rs m q)"
    by (simp add: engine_inv_def)
  then show "getValue r0 q = Inr (registered rs m q)"
    by (auto simp: r0_def handleHTTPRequest_get getValue_leaf split: option.splits)
qed

lemma Engine_addRoute_step:
  assumes inv: "engine_inv trees rs" and a: "Engine_addRoute trees m p h = Some (Inr trees')"
  shows "engine_inv trees' (rs @ [(m, p, h)])"
proof -
  define r0 where "r0 = (case get trees m of None \<Rightarrow> Node [] [] 0 [] None ''/'' | Some r \<Rightarrow> r)"
  define base where "base = (case get trees m of
       None \<Rightarrow> trees @ [\<lparr>method = m, root = Node [] [] 0 [] None ''/''\<rparr>] | Some r \<Rightarrow> trees)"
  note v = Engine_addRoute_returns_valid[OF a]
  then have va: "0 < length p" "p ! 0 = CHR ''/''" "m \<noteq> []" "0 < len_chain h" by simp_all
  have hn: "h \<noteq> None" using va(4) by (cases h) (auto simp: len_chain_def)
  from a have "Option.bind (addRoute r0 p h)
       (\<lambda>res. Some (case res of Inl e \<Rightarrow> Inl e | Inr r1 \<Rightarrow> Inr (set_root base m r1)))
        = Some (Inr trees')"
    unfolding Engine_addRoute_valid[OF va] r0_def base_def by simp
  then obtain r1 where ar: "addRoute r0 p h = Some (Inr r1)" and t': "trees' = set_root base m r1"
    by (cases "addRoute r0 p h") (auto split: sum.splits)
  note R = engine_root[OF inv, of m, folded r0_def]
  have pp: "p \<noteq> []" using va(1) by auto
  from addRoute_sound[OF ar R(1) pp va(2)]
  have fresh: "getValue r0 p = Inr None" and w1: "wf_root r1"
    and g1: "\<And>q. getValue r1 q = (if q = p then Inr h else getValue r0 q)"
    by simp_all
  have gb: "get base m' = (if m' = m then Some r0 else get trees m')" for m'
    by (auto simp: base_def r0_def get_append split: option.splits)
  have gt: "get trees' m' = (if m' = m then Some r1 else get trees m')" for m'
    unfolding t' get_set_root gb by simp
  from inv have nn: "\<forall>r \<in> set rs. snd (snd r) \<noteq> None"
    and dist: "distinct (map route_key rs)"
    and look: "\<And>m q. handleHTTPRequest trees m q = Inr (registered rs m q)"
    and roots: "\<And>m t. get trees m = Some t \<Longrightarrow> wf_root t"
    by (simp_all add: engine_inv_def)
  from fresh R(2)[of p] have rn: "registered rs m p = None" by simp
  then have key: "(m, p) \<notin> route_key ` set rs"
    using registered_None[OF nn] by simp
  then have mo: "map_of (map (\<lambda>r. (route_key r, snd (snd r))) rs) (m, p) = None"
    by (force simp: map_of_eq_None_iff)
  have RS: "registered (rs @ [(m, p, h)]) m' q
              = (if (m', q) = (m, p) then h else registered rs m' q)" for m' q
  proof (cases "(m', q) = (m, p)")
    case True
    then show ?thesis unfolding registered_snoc using mo by simp
  next
    case False
    then show ?thesis unfolding registered_snoc by (auto simp add: registered_def)
  qed
  have L: "handleHTTPRequest trees' m' q = Inr (registered (rs @ [(m, p, h)]) m' q)" for m' q
  proof (cases "m' = m")
    case True
    then show ?thesis
      unfolding RS by (simp add: handleHTTPRequest_get gt g1 R(2))
  next
    case False
    have "handleHTTPRequest trees' m' q = handleHTTPRequest trees m' q"
      using False by (simp add: handleHTTPRequest_get gt)
    with False show ?thesis
      unfolding RS by (simp add: look)
  qed
  have W: "wf_root t" if "get trees' m' = Some t" for m' t
    using that w1 roots by (auto simp: gt split: if_splits)
  have D: "distinct (map route_key (rs @ [(m, p, h)]))"
    using dist key by (simp add: route_key_def)
  show ?thesis
    unfolding engine_inv_def using W L nn hn D by auto
qed

lemma engine_inv_empty: "engine_inv [] []"
  by (simp add: engine_inv_def registered_def)

lemma registerAll_inv:
  "engine_inv trees done \<Longrightarrow> registerAll trees rs = Some (Inr trees') \<Longrightarrow>
     engine_inv trees' (done @ rs)"
proof (induction rs arbitrary: trees "done")
  case Nil
  then show ?case by simp
next
  case (Cons r rs)
  obtain m p h where r: "r = (m, p, h)" by (cases r) auto
  from Cons.prems(2) r obtain trees1 where
    a: "Engine_addRoute trees m p h = Some (Inr trees1)"
    and rest: "registerAll trees1 rs = Some (Inr trees')"
    by (auto split: option.splits sum.splits)
  from Engine_addRoute_step[OF Cons.prems(1) a]
  have "engine_inv trees1 (done @ [(m, p, h)])" .
  from Cons.IH[OF this rest] r show ?case by simp
qed

lemma reachable_inv: "registerAll [] rs = Some (Inr trees) \<Longrightarrow> engine_inv trees rs"
  using registerAll_inv[OF engine_inv_empty, of rs trees] by simp

text \<open>Every tree of an engine reached by registrations that return keeps the invariant of
  the data model: in particular no node below a root has an empty segment.  The empty
  segments that the split at 0 makes exist only inside a call that never returns.\<close>

lemma reached_trees_invariant:
  "registerAll [] rs = Some (Inr trees) \<Longrightarrow> get trees m = Some t \<Longrightarrow> wf_root t"
  using reachable_inv[of rs trees] by (simp add: engine_inv_def)

section \<open>Round trip\<close>

lemma example_engine_reached: "registerAll [] example_routes = Some (Inr example_engine)"
  by code_simp

lemma looping_engine_reached: "registerAll [] looping_prefix = Some (Inr looping_engine)"
  by code_simp

lemma looping_engine_diverges:
  "Engine_addRoute looping_engine ''GET'' ''/a/'' (fakeHandler ''/a/'') = None"
  by (simp add: Engine_addRoute_def looping_engine_def looping_tree_diverges fakeHandler_def
      len_chain_def)

lemma registerAll_append:
  "registerAll trees (rs @ rs') =
     (case registerAll trees rs of
        None \<Rightarrow> None
      | Some (Inl e) \<Rightarrow> Some (Inl e)
      | Some (Inr trees1) \<Rightarrow> registerAll trees1 rs')"
  by (induction rs arbitrary: trees) (auto split: option.splits sum.splits)

text \<open>
  Claim C1 (round trip) promises, for every sequence of registrations with distinct
  paths that begin with a slash and with non-empty chains, that each registered path is
  then found with its chain.  It fails on the code: the three registrations
  \<open>looping_routes\<close> are such a sequence, and registering them never returns, so that
  \<open>/a/\<close> is never found.
\<close>

theorem looping_routes_never_registered:
  "list_all valid_registration looping_routes \<and> distinct (map route_key looping_routes)
   \<and> registerAll [] looping_routes = None"
proof (intro conjI)
  show "list_all valid_registration looping_routes"
    by (simp add: looping_routes_def looping_prefix_def valid_registration_def fakeHandler_def
        len_chain_def)
  show "distinct (map route_key looping_routes)"
    by (simp add: looping_routes_def looping_prefix_def route_key_def)
  show "registerAll [] looping_routes = None"
    unfolding looping_routes_def registerAll_append looping_engine_reached
    by (simp add: looping_engine_diverges)
qed

text \<open>
  Wherever the registrations do return, the round trip holds: for every method and every
  sequence of registrations that all return, the lookup of a registered path under its
  method, on the resulting engine, returns exactly the chain that was passed for that
  path; the chain is not \<open>nil\<close>, so the request is dispatched and not answered with
  404.
\<close>

theorem roundtrip:
  assumes "registerAll [] rs = Some (Inr trees)" and "(m, p, h) \<in> set rs"
  shows "handleHTTPRequest trees m p = Inr h \<and> h \<noteq> None"
proof -
  from reachable_inv[OF assms(1)] have look: "handleHTTPRequest trees m p = Inr (registered rs m p)"
    and nn: "\<forall>r \<in> set rs. snd (snd r) \<noteq> None" and d: "distinct (map route_key rs)"
    by (simp_all add: engine_inv_def)
  from registered_mem[OF d assms(2)] look nn assms(2) show ?thesis by auto
qed

theorem roundtrip_witness:
  "registerAll [] example_routes = Some (Inr example_engine)
   \<and> (''GET'', ''/ab'', fakeHandler ''GET /ab'') \<in> set example_routes
   \<and> handleHTTPRequest example_engine ''GET'' ''/ab'' = Inr (fakeHandler ''GET /ab'')"
proof -
  have m: "(''GET'', ''/ab'', fakeHandler ''GET /ab'') \<in> set example_routes"
    by (simp add: example_routes_def)
  from roundtrip[OF example_engine_reached m] example_engine_reached m show ?thesis by simp
qed

section \<open>The panics of \<open>Engine.addRoute\<close>\<close>

text \<open>
  Claim C3 (the panics of \<open>addRoute\<close>) promises that a call which violates no
  precondition and registers no duplicate completes without a fatal error.  It fails on
  the code: on the engine reached by \<open>looping_prefix\<close> the registration of \<open>/a/\<close>
  under \<open>GET\<close> is valid and new, and it never returns.
\<close>

theorem Engine_addRoute_hangs:
  "registerAll [] looping_prefix = Some (Inr looping_engine)
   \<and> valid_registration (''GET'', ''/a/'', fakeHandler ''/a/'')
   \<and> (''GET'', ''/a/'') \<notin> route_key ` set looping_prefix
   \<and> Engine_addRoute looping_engine ''GET'' ''/a/'' (fakeHandler ''/a/'') = None"
proof (intro conjI)
  show "registerAll [] looping_prefix = Some (Inr looping_engine)"
    by (rule looping_engine_reached)
  show "valid_registration (''GET'', ''/a/'', fakeHandler ''/a/'')"
    by (simp add: valid_registration_def fakeHandler_def len_chain_def)
  show "(''GET'', ''/a/'') \<notin> route_key ` set looping_prefix"
    by (simp add: looping_prefix_def route_key_def)
  show "Engine_addRoute looping_engine ''GET'' ''/a/'' (fakeHandler ''/a/'') = None"
    by (rule looping_engine_diverges)
qed

text \<open>
  The panics themselves are as the claim says: on every engine reached by registrations,
  \<open>Engine.addRoute\<close> panics if and only if the path does not begin with a slash (the
  empty path included), the method is empty, the chain is empty, or the path is already
  registered under that method; in every other case the call does not panic.
\<close>

theorem Engine_addRoute_panics_iff:
  assumes "registerAll [] rs = Some (Inr trees)"
  shows "(\<exists>e. Engine_addRoute trees m p h = Some (Inl e))
     \<longleftrightarrow> (p = [] \<or> p ! 0 \<noteq> CHR ''/'') \<or> m = [] \<or> len_chain h = 0
          \<or> (m, p) \<in> route_key ` set rs"
proof (cases "0 < length p \<and> p ! 0 = CHR ''/'' \<and> m \<noteq> [] \<and> 0 < len_chain h")
  case False
  from Engine_addRoute_invalid[OF False] False show ?thesis by auto
next
  case True
  then have va: "0 < length p" "p ! 0 = CHR ''/''" "m \<noteq> []" "0 < len_chain h" by simp_all
  note inv = reachable_inv[OF assms]
  define r0 where "r0 = (case get trees m of None \<Rightarrow> Node [] [] 0 [] None ''/'' | Some r \<Rightarrow> r)"
  note R = engine_root[OF inv, of m, folded r0_def]
  from inv have nn: "\<forall>r \<in> set rs. snd (snd r) \<noteq> None" by (simp add: engine_inv_def)
  have E: "(\<exists>e. Engine_addRoute trees m p h = Some (Inl e)) \<longleftrightarrow> (\<exists>e. addRoute r0 p h = Some (Inl e))"
    unfolding Engine_addRoute_valid[OF va] r0_def[symmetric]
    by (cases "addRoute r0 p h") (auto split: sum.splits)
  have pp: "p \<noteq> []" using va(1) by auto
  have "(\<exists>e. addRoute r0 p h = Some (Inl e)) \<longleftrightarrow> (m, p) \<in> route_key ` set rs"
  proof
    assume "\<exists>e. addRoute r0 p h = Some (Inl e)"
    then obtain e where "addRoute r0 p h = Some (Inl e)" by blast
    from addRoute_sound[OF this R(1) pp va(2)] R(2)[of p]
    have "registered rs m p \<noteq> None" by auto
    with registered_None[OF nn, of m p] show "(m, p) \<in> route_key ` set rs" by simp
  next
    assume "(m, p) \<in> route_key ` set rs"
    with registered_None[OF nn, of m p] obtain h' where "registered rs m p = Some h'" by auto
    with R(2)[of p] have "getValue r0 p = Inr (Some h')" by simp
    from addRoute_registered_panics[OF R(1) this] show "\<exists>e. addRoute r0 p h = Some (Inl e)"
      by blast
  qed
  with E True show ?thesis by auto
qed

theorem Engine_addRoute_panics_iff_witness:
  "registerAll [] example_routes = Some (Inr example_engine)
   \<and> (''GET'', ''/ab'') \<in> route_key ` set example_routes
   \<and> (\<exists>e. Engine_addRoute example_engine ''GET'' ''/ab'' (fakeHandler ''again'') = Some (Inl e))
   \<and> (''POST'', ''/ab'') \<notin> route_key ` set example_routes
   \<and> \<not> (\<exists>e. Engine_addRoute example_engine ''POST'' ''/ab'' (fakeHandler ''new'') = Some (Inl e))"
proof -
  have k: "(''GET'', ''/ab'') \<in> route_key ` set example_routes"
    "(''POST'', ''/ab'') \<notin> route_key ` set example_routes"
    by (simp_all add: example_routes_def route_key_def)
  have l: "len_chain (fakeHandler ''again'') \<noteq> 0" "len_chain (fakeHandler ''new'') \<noteq> 0"
    by (simp_all add: fakeHandler_def len_chain_def)
  from Engine_addRoute_panics_iff[OF example_engine_reached, of "''GET''" "''/ab''" "fakeHandler ''again''"]
    Engine_addRoute_panics_iff[OF example_engine_reached, of "''POST''" "''/ab''" "fakeHandler ''new''"]
    k l example_engine_reached
  show ?thesis by simp
qed

section \<open>The lookup is total\<close>

text \<open>
  Claim C6.  For every tree in the method table of an engine reached by registrations
  and for every path, the empty one included, \<open>getValue\<close> does not fail (no index is
  read out of range): it returns the chain registered for that path under the tree's
  method, or \<open>nil\<close>; and it returns \<open>nil\<close> whenever the path was not registered
  under that method.
\<close>

theorem getValue_total:
  assumes "registerAll [] rs = Some (Inr trees)" and "get trees m = Some t"
  shows "getValue t q = Inr (registered rs m q)
     \<and> ((m, q) \<notin> route_key ` set rs \<longrightarrow> getValue t q = Inr None)"
proof -
  from reachable_inv[OF assms(1)] have look: "handleHTTPRequest trees m q = Inr (registered rs m q)"
    and nn: "\<forall>r \<in> set rs. snd (snd r) \<noteq> None"
    by (simp_all add: engine_inv_def)
  from look assms(2) have "getValue t q = Inr (registered rs m q)"
    by (simp add: handleHTTPRequest_get)
  with registered_None[OF nn, of m q] show ?thesis by simp
qed

theorem getValue_total_witness:
  "registerAll [] example_routes = Some (Inr example_engine)
   \<and> get example_engine ''GET'' = Some (root (example_engine ! 0))
   \<and> (''GET'', []) \<notin> route_key ` set example_routes
   \<and> getValue (root (example_engine ! 0)) [] = Inr None
   \<and> getValue (root (example_engine ! 0)) ''/abc'' = Inr None"
proof -
  have g: "get example_engine ''GET'' = Some (root (example_engine ! 0))"
    by (simp add: example_engine_def)
  have k: "(''GET'', []) \<notin> route_key ` set example_routes"
    "(''GET'', ''/abc'') \<notin> route_key ` set example_routes"
    by (simp_all add: example_routes_def route_key_def)
  from getValue_total[OF example_engine_reached g, of "[]"] k
  have a: "getValue (root (example_engine ! 0)) [] = Inr None" by blast
  from getValue_total[OF example_engine_reached g, of "''/abc''"] k
  have b: "getValue (root (example_engine ! 0)) ''/abc'' = Inr None" by blast
  from a b k g example_engine_reached show ?thesis by simp
qed

section \<open>Method isolation\<close>

text \<open>
  Claim C9.  A registration under the method \<open>m1\<close> changes neither the tree nor any
  lookup of another method \<open>m2\<close>: what was not found under \<open>m2\<close> before is not found
  after.  The dispatch asks the first tree whose method is exactly the request's, and
  without such a tree the answer is "no route" at once.
\<close>

theorem method_isolation:
  assumes "Engine_addRoute trees m1 p h = Some (Inr trees')" and "m2 \<noteq> m1"
  shows "get trees' m2 = get trees m2
     \<and> handleHTTPRequest trees' m2 q = handleHTTPRequest trees m2 q
     \<and> handleHTTPRequest trees' m2 q
         = (case get trees' m2 of None \<Rightarrow> Inr None | Some t \<Rightarrow> getValue t q)"
proof -
  note v = Engine_addRoute_returns_valid[OF assms(1)]
  then have va: "0 < length p" "p ! 0 = CHR ''/''" "m1 \<noteq> []" "0 < len_chain h" by simp_all
  from assms(1) obtain r1 where
    t': "trees' = set_root
               (case get trees m1 of None \<Rightarrow> trees @ [\<lparr>method = m1, root = Node [] [] 0 [] None ''/''\<rparr>]
                | Some r \<Rightarrow> trees) m1 r1"
    unfolding Engine_addRoute_valid[OF va]
    by (cases "addRoute (case get trees m1 of None \<Rightarrow> Node [] [] 0 [] None ''/'' | Some r \<Rightarrow> r) p h")
       (auto split: sum.splits)
  have g: "get trees' m2 = get trees m2"
    using assms(2) unfolding t' get_set_root by (auto simp: get_append split: option.splits)
  then show ?thesis by (simp add: handleHTTPRequest_get)
qed

theorem method_isolation_witness:
  "Engine_addRoute [] ''GET'' ''/a'' (fakeHandler ''GET /a'')
     = Some (Inr [\<lparr>method = ''GET'', root = Node ''/a'' [] 1 [] (fakeHandler ''GET /a'') ''/a''\<rparr>])
   \<and> ''POST'' \<noteq> ''GET''
   \<and> handleHTTPRequest [\<lparr>method = ''GET'', root = Node ''/a'' [] 1 [] (fakeHandler ''GET /a'') ''/a''\<rparr>]
        ''POST'' ''/a'' = Inr None
   \<and> handleHTTPRequest [\<lparr>method = ''GET'', root = Node ''/a'' [] 1 [] (fakeHandler ''GET /a'') ''/a''\<rparr>]
        ''GET'' ''/a'' = Inr (fakeHandler ''GET /a'')"
proof -
  have a: "Engine_addRoute [] ''GET'' ''/a'' (fakeHandler ''GET /a'')
     = Some (Inr [\<lparr>method = ''GET'', root = Node ''/a'' [] 1 [] (fakeHandler ''GET /a'') ''/a''\<rparr>])"
    by code_simp
  have n: "''POST'' \<noteq> ''GET''" by simp
  have f: "handleHTTPRequest [\<lparr>method = ''GET'', root = Node ''/a'' [] 1 [] (fakeHandler ''GET /a'') ''/a''\<rparr>]
        ''GET'' ''/a'' = Inr (fakeHandler ''GET /a'')"
    by code_simp
  from method_isolation[OF a n, of "''/a''"] a n f show ?thesis by simp
qed

section \<open>The lookup is read-only\<close>

lemma set_child_same: "set_child n i (children n ! i) = n"
  by (cases n) (simp add: set_child_def)

lemma getValue_st_frame: "getValue_st n pth = (getValue n pth, n)"
proof (induction n pth rule: getValue_st.induct)
  case (1 n pth)
  show ?case
  proof (cases "length pth > length (path n) \<and> take (length (path n)) pth = path n")
    case False
    then show ?thesis
      by (subst getValue_st.simps, subst getValue.simps) auto
  next
    case True
    show ?thesis
    proof (cases "index_byte (drop (length (path n)) pth ! 0) (indices n)")
      case None
      with True show ?thesis
        by (subst getValue_st.simps, subst getValue.simps) simp
    next
      case (Some i)
      show ?thesis
      proof (cases "i < length (children n)")
        case False
        with True Some show ?thesis
          by (subst getValue_st.simps, subst getValue.simps) simp
      next
        case l: True
        from "1.IH"[OF True Some l]
        have "getValue_st (children n ! i) (drop (length (path n)) pth)
                = (getValue (children n ! i) (drop (length (path n)) pth), children n ! i)" .
        with True Some l show ?thesis
          by (subst getValue_st.simps, subst getValue.simps) (simp add: set_child_same)
      qed
    qed
  qed
qed

text \<open>
  Claim C7.  The node as \<open>getValue\<close> leaves it is the node it was given, with every
  field of every node below it (segment, index string, children, handlers, priority):
  the lookup writes nothing.  A second lookup of the same path therefore runs on the
  same tree and returns the same chain, and the state-passing lookup returns what the
  pure function \<open>getValue\<close> returns.
\<close>

theorem getValue_read_only:
  "snd (getValue_st n pth) = n
   \<and> fst (getValue_st (snd (getValue_st n pth)) pth) = fst (getValue_st n pth)
   \<and> fst (getValue_st n pth) = getValue n pth"
  by (simp add: getValue_st_frame)

end
